theory Spec2Isabelle
  imports Complex_Main "HOL-Library.Multiset"
begin

section \<open>Data model\<close>

text \<open>
  Objects of the C++ program live at addresses. A \<open>TPGVertex*\<close> and a \<open>TPGEdge*\<close> are
  modelled as natural numbers; the graph owns the objects, so its two collections pair
  every address with the object stored there.
\<close>

type_synonym vptr = nat
type_synonym eptr = nat

text \<open>
  Outcomes beyond a normal return. The first five name the failures of the specification;
  in the C++ they are \<open>std::runtime_error\<close> and \<open>std::out_of_range\<close>.
  \<open>BadTypeid\<close> is the exception of \<open>typeid\<close> applied through a null pointer.
  \<open>UndefinedBehaviour\<close> marks the places where the C++ dereferences an end iterator or
  a dangling pointer: the language gives such an execution no meaning, and the model
  records that instead of inventing a result.
\<close>

datatype error =
    InvalidVertex
  | ActionSourceError
  | EmptyTeam
  | ResultTypeMismatch
  | IndexOutOfRange
  | BadTypeid
  | UndefinedBehaviour

datatype kind = TPGTeam | TPGAction

record vertex =
  kind :: kind
  incomingEdges :: "eptr list"
  outgoingEdges :: "eptr list"

record 'p edge =
  source :: vptr
  destination :: vptr
  program :: 'p

record 'p graph =
  vertices :: "(vptr \<times> vertex) list"
  edges :: "(eptr \<times> 'p edge) list"

section \<open>Execution engine (tpgExecutionEngine.cpp)\<close>

text \<open>
  A \<open>double\<close>, as far as the engine looks at it: the engine only tests \<open>isnan\<close> and
  compares with \<open>>=\<close>, so the finite values are modelled by the reals.
\<close>

datatype double = NaN | NegInf | Finite real | PosInf

fun isnan :: "double \<Rightarrow> bool" where
  "isnan NaN = True"
| "isnan _ = False"

text \<open>The C++ operator \<open>>=\<close> on doubles; every comparison with a NaN is false.\<close>

fun ge :: "double \<Rightarrow> double \<Rightarrow> bool" where
  "ge NaN _ = False"
| "ge _ NaN = False"
| "ge PosInf _ = True"
| "ge _ NegInf = True"
| "ge NegInf _ = False"
| "ge _ PosInf = False"
| "ge (Finite a) (Finite b) = (b \<le> a)"

text \<open>
  The engine's state. \<open>executions\<close> is the log of the calls made to
  \<open>ProgramExecutionEngine::executeProgram\<close> (the program that ran, in call order);
  \<open>archive\<close> is \<open>None\<close> for a NULL archive pointer and otherwise the log of the calls
  made to \<open>Archive::addRecording\<close> (program, data sources, result). Both collaborators
  are outside the engine; what the engine does to them is the calls it makes.
\<close>

record ('p, 'd) engine =
  currentProgram :: "'p option"
  executions :: "'p list"
  archive :: "('p \<times> 'd \<times> double) list option"

text \<open>
  \<open>run\<close> is the result of executing a program on the current data sources \<open>ds\<close>; the
  engine never changes the data sources, so within one call it is a function of the
  program alone.
\<close>

definition evaluateEdge ::
  "('p \<Rightarrow> double) \<Rightarrow> 'd \<Rightarrow> 'p edge \<Rightarrow> ('p, 'd) engine \<Rightarrow> double \<times> ('p, 'd) engine" where
  "evaluateEdge run ds e st =
     (let prog = program e;
          st1 = st\<lparr>currentProgram := Some prog\<rparr>;
          st2 = st1\<lparr>executions := executions st1 @ [prog]\<rparr>;
          result = (if isnan (run prog) then NegInf else run prog);
          st3 = (case archive st2 of
                   None \<Rightarrow> st2
                 | Some recs \<Rightarrow> st2\<lparr>archive := Some (recs @ [(prog, ds, result)])\<rparr>)
      in (result, st3))"

text \<open>The six local variables of \<open>evaluateTeam\<close>.\<close>

record selection =
  bestEdge :: eptr
  secondEdge :: eptr
  thirdEdge :: eptr
  bestBid :: double
  secondBid :: double
  thirdBid :: double

text \<open>The body of the \<open>for\<close> loop of \<open>evaluateTeam\<close>, once the bid of \<open>e\<close> is known.\<close>

definition rank :: "eptr \<Rightarrow> double \<Rightarrow> selection \<Rightarrow> selection" where
  "rank e bid s =
     (if ge bid (bestBid s) then
        s\<lparr>thirdEdge := secondEdge s, thirdBid := secondBid s,
          secondEdge := bestEdge s, secondBid := bestBid s,
          bestEdge := e, bestBid := bid\<rparr>
      else if ge bid (secondBid s) then
        s\<lparr>thirdEdge := secondEdge s, thirdBid := secondBid s,
          secondEdge := e, secondBid := bid\<rparr>
      else if ge bid (thirdBid s) then
        s\<lparr>thirdEdge := e, thirdBid := bid\<rparr>
      else s)"

text \<open>
  The loop over the remaining outgoing edges. An edge pointer that is not the address of
  an edge of the graph is dangling, and evaluating it is undefined.
\<close>

fun others ::
  "'p graph \<Rightarrow> ('p \<Rightarrow> double) \<Rightarrow> 'd \<Rightarrow> eptr list \<Rightarrow> selection \<Rightarrow> ('p, 'd) engine
   \<Rightarrow> error + (selection \<times> ('p, 'd) engine)" where
  "others g run ds [] s st = Inr (s, st)"
| "others g run ds (e # es) s st =
     (case map_of (edges g) e of
        None \<Rightarrow> Inl UndefinedBehaviour
      | Some ed \<Rightarrow>
          (case evaluateEdge run ds ed st of
             (bid, st') \<Rightarrow> others g run ds es (rank e bid s) st'))"

text \<open>
  \<open>evaluateTeam\<close>: the first outgoing edge is read with \<open>*outgoingEdges.begin()\<close>, which
  on an empty list dereferences the end iterator. The three initial bids are three calls
  of \<open>evaluateEdge\<close> on that first edge.
\<close>

definition evaluateTeam ::
  "'p graph \<Rightarrow> ('p \<Rightarrow> double) \<Rightarrow> 'd \<Rightarrow> vertex \<Rightarrow> ('p, 'd) engine
   \<Rightarrow> error + (eptr list \<times> ('p, 'd) engine)" where
  "evaluateTeam g run ds team st =
     (case outgoingEdges team of
        [] \<Rightarrow> Inl UndefinedBehaviour
      | e0 # rest \<Rightarrow>
          (case map_of (edges g) e0 of
             None \<Rightarrow> Inl UndefinedBehaviour
           | Some ed0 \<Rightarrow>
               (case evaluateEdge run ds ed0 st of (b1, st1) \<Rightarrow>
                case evaluateEdge run ds ed0 st1 of (b2, st2) \<Rightarrow>
                case evaluateEdge run ds ed0 st2 of (b3, st3) \<Rightarrow>
                case others g run ds rest
                       \<lparr>bestEdge = e0, secondEdge = e0, thirdEdge = e0,
                        bestBid = b1, secondBid = b2, thirdBid = b3\<rparr> st3 of
                  Inl err \<Rightarrow> Inl err
                | Inr (s, st') \<Rightarrow> Inr ([bestEdge s, secondEdge s, thirdEdge s], st'))))"

text \<open>\<open>std::vector::at\<close>: a checked read.\<close>

definition vector_at :: "'a list \<Rightarrow> nat \<Rightarrow> error + 'a" where
  "vector_at xs i = (if i < length xs then Inr (xs ! i) else Inl IndexOutOfRange)"

text \<open>\<open>edges.at(i).get().getDestination()\<close>\<close>

definition destinationAt :: "'p graph \<Rightarrow> eptr list \<Rightarrow> nat \<Rightarrow> error + vptr" where
  "destinationAt g es i =
     (case vector_at es i of
        Inl err \<Rightarrow> Inl err
      | Inr e \<Rightarrow> (case map_of (edges g) e of
                    None \<Rightarrow> Inl UndefinedBehaviour
                  | Some ed \<Rightarrow> Inr (destination ed)))"

text \<open>
  The \<open>while\<close> loop of \<open>executeFromRoot\<close>. The C++ loop has no bound of its own (it
  relies on the graph being acyclic), so the model counts iterations down from a fuel and
  answers \<open>None\<close> when the fuel is used up before an action is reached.
  \<open>dynamic_cast\<close> on a pointer to no live vertex is undefined.
\<close>

fun browse ::
  "nat \<Rightarrow> 'p graph \<Rightarrow> ('p \<Rightarrow> double) \<Rightarrow> 'd \<Rightarrow> vptr \<Rightarrow> vptr list \<Rightarrow> ('p, 'd) engine
   \<Rightarrow> (error + (vptr list \<times> ('p, 'd) engine)) option" where
  "browse 0 g run ds currentVertex visitedVertices st = None"
| "browse (Suc n) g run ds currentVertex visitedVertices st =
     (case map_of (vertices g) currentVertex of
        None \<Rightarrow> Some (Inl UndefinedBehaviour)
      | Some vx \<Rightarrow>
          if kind vx = TPGTeam then
            (case evaluateTeam g run ds vx st of
               Inl err \<Rightarrow> Some (Inl err)
             | Inr (es, st') \<Rightarrow>
                 (case destinationAt g es 2 of Inl err \<Rightarrow> Some (Inl err) | Inr d3 \<Rightarrow>
                  case destinationAt g es 1 of Inl err \<Rightarrow> Some (Inl err) | Inr d2 \<Rightarrow>
                  case destinationAt g es 0 of Inl err \<Rightarrow> Some (Inl err) | Inr d1 \<Rightarrow>
                    browse n g run ds d1 (visitedVertices @ [d3, d2, d1]) st'))
          else Some (Inr (visitedVertices, st)))"

definition executeFromRoot ::
  "nat \<Rightarrow> 'p graph \<Rightarrow> ('p \<Rightarrow> double) \<Rightarrow> 'd \<Rightarrow> vptr \<Rightarrow> ('p, 'd) engine
   \<Rightarrow> (error + (vptr list \<times> ('p, 'd) engine)) option" where
  "executeFromRoot fuel g run ds r st = browse fuel g run ds r [r] st"

section \<open>Graph (tpgGraph.cpp)\<close>

text \<open>
  In tpgGraph.cpp a vertex holds its incoming and outgoing edges as \<open>std::set<TPGEdge*>\<close>:
  no pointer twice, iterated in increasing pointer order. The lists \<open>incomingEdges\<close> and
  \<open>outgoingEdges\<close> carry such a set as its elements in iteration order.
\<close>

definition set_insert :: "eptr \<Rightarrow> eptr list \<Rightarrow> eptr list" where
  "set_insert e xs = (if e \<in> set xs then xs else insort e xs)"

definition set_erase :: "eptr \<Rightarrow> eptr list \<Rightarrow> eptr list" where
  "set_erase e xs = removeAll e xs"

text \<open>
  Modelled from the spec: the methods of \<open>TPGVertex\<close>, \<open>TPGTeam\<close> and \<open>TPGAction\<close> that
  tpgGraph.cpp calls are declared and defined outside the sources at hand. The spec says
  that a vertex holds a set of incoming and a set of outgoing edges and that
  "outgoing-edge addition on an Action must fail"; tpgGraph.cpp says of
  \<open>addOutgoingEdge\<close> that it "may throw if an outgoing edge is added to an action" and
  catches a \<open>std::runtime_error\<close>.
\<close>

definition addOutgoingEdge :: "eptr \<Rightarrow> vertex \<Rightarrow> error + vertex" where
  "addOutgoingEdge e vx =
     (case kind vx of
        TPGAction \<Rightarrow> Inl ActionSourceError
      | TPGTeam \<Rightarrow> Inr (vx\<lparr>outgoingEdges := set_insert e (outgoingEdges vx)\<rparr>))"

definition addIncomingEdge :: "eptr \<Rightarrow> vertex \<Rightarrow> vertex" where
  "addIncomingEdge e vx = vx\<lparr>incomingEdges := set_insert e (incomingEdges vx)\<rparr>"

definition removeOutgoingEdge :: "eptr \<Rightarrow> vertex \<Rightarrow> vertex" where
  "removeOutgoingEdge e vx = vx\<lparr>outgoingEdges := set_erase e (outgoingEdges vx)\<rparr>"

definition removeIncomingEdge :: "eptr \<Rightarrow> vertex \<Rightarrow> vertex" where
  "removeIncomingEdge e vx = vx\<lparr>incomingEdges := set_erase e (incomingEdges vx)\<rparr>"

text \<open>
  \<open>std::find_if\<close> by address returns the first element with that address, which is what
  \<open>map_of\<close> reads. \<open>updateVertex\<close> changes the object behind such an iterator, and
  \<open>erase\<close> is \<open>std::list::erase\<close> at such an iterator.
\<close>

fun updateVertex ::
  "vptr \<Rightarrow> (vertex \<Rightarrow> vertex) \<Rightarrow> (vptr \<times> vertex) list \<Rightarrow> (vptr \<times> vertex) list" where
  "updateVertex v f [] = []"
| "updateVertex v f ((p, vx) # vs) =
     (if p = v then (p, f vx) # vs else (p, vx) # updateVertex v f vs)"

fun erase :: "nat \<Rightarrow> (nat \<times> 'a) list \<Rightarrow> (nat \<times> 'a) list" where
  "erase a [] = []"
| "erase a ((b, x) # xs) = (if b = a then xs else (b, x) # erase a xs)"

definition addNewTeam :: "vptr \<Rightarrow> 'p graph \<Rightarrow> vptr \<times> 'p graph" where
  "addNewTeam a g =
     (a, g\<lparr>vertices := vertices g @ [(a, \<lparr>kind = TPGTeam, incomingEdges = [], outgoingEdges = []\<rparr>)]\<rparr>)"

definition addNewAction :: "vptr \<Rightarrow> 'p graph \<Rightarrow> vptr \<times> 'p graph" where
  "addNewAction a g =
     (a, g\<lparr>vertices := vertices g @ [(a, \<lparr>kind = TPGAction, incomingEdges = [], outgoingEdges = []\<rparr>)]\<rparr>)"

text \<open>
  \<open>addNewEdge\<close>. The argument \<open>a\<close> is the address at which \<open>emplace_back\<close> places the
  new edge. An exception leaves the function together with the graph as it is at that
  moment, so the failing outcome carries the graph too.
\<close>

definition addNewEdge ::
  "eptr \<Rightarrow> vptr \<Rightarrow> vptr \<Rightarrow> 'p \<Rightarrow> 'p graph \<Rightarrow> (error \<times> 'p graph) + (eptr \<times> 'p graph)" where
  "addNewEdge a src dest prog g =
     (case (map_of (vertices g) src, map_of (vertices g) dest) of
        (Some sv, Some dv) \<Rightarrow>
          (let g1 = g\<lparr>edges := edges g @ [(a, \<lparr>source = src, destination = dest, program = prog\<rparr>)]\<rparr>
           in case addOutgoingEdge a sv of
                Inl err \<Rightarrow> Inl (err, g1\<lparr>edges := butlast (edges g1)\<rparr>)
              | Inr sv' \<Rightarrow>
                  (let g2 = g1\<lparr>vertices := updateVertex src (\<lambda>_. sv') (vertices g1)\<rparr>;
                       g3 = g2\<lparr>vertices := updateVertex dest (addIncomingEdge a) (vertices g2)\<rparr>
                   in Inr (a, g3)))
      | _ \<Rightarrow> Inl (InvalidVertex, g))"

text \<open>
  \<open>removeEdge\<close>. The call \<open>this->edges.erase(iterator)\<close> stands after the \<open>if\<close>, so it
  also runs when the edge was not found and \<open>iterator\<close> is \<open>edges.end()\<close>; erasing the
  end iterator is undefined. \<open>findVertex\<close> dereferences the result of \<open>std::find\<close>
  unchecked, which is undefined when the vertex is not in the list.
\<close>

definition removeEdge :: "eptr \<Rightarrow> 'p graph \<Rightarrow> error + 'p graph" where
  "removeEdge e g =
     (case map_of (edges g) e of
        None \<Rightarrow> Inl UndefinedBehaviour
      | Some ed \<Rightarrow>
          (case map_of (vertices g) (source ed) of
             None \<Rightarrow> Inl UndefinedBehaviour
           | Some _ \<Rightarrow>
               (let g1 = g\<lparr>vertices := updateVertex (source ed) (removeOutgoingEdge e) (vertices g)\<rparr>
                in case map_of (vertices g1) (destination ed) of
                     None \<Rightarrow> Inl UndefinedBehaviour
                   | Some _ \<Rightarrow>
                       (let g2 = g1\<lparr>vertices :=
                                       updateVertex (destination ed) (removeIncomingEdge e) (vertices g1)\<rparr>
                        in Inr (g2\<lparr>edges := erase e (edges g2)\<rparr>)))))"

text \<open>A \<open>for\<close> loop of \<open>removeVertex\<close>, over a copy of an incidence set.\<close>

fun removeEdges :: "eptr list \<Rightarrow> 'p graph \<Rightarrow> error + 'p graph" where
  "removeEdges [] g = Inr g"
| "removeEdges (e # es) g =
     (case removeEdge e g of
        Inl err \<Rightarrow> Inl err
      | Inr g' \<Rightarrow> removeEdges es g')"

text \<open>
  \<open>removeVertex\<close>. The outgoing set is copied after the incoming edges have been removed,
  so it is read from the vertex as it is then.
\<close>

definition removeVertex :: "vptr \<Rightarrow> 'p graph \<Rightarrow> error + 'p graph" where
  "removeVertex v g =
     (case map_of (vertices g) v of
        None \<Rightarrow> Inr g
      | Some vx \<Rightarrow>
          (case removeEdges (incomingEdges vx) g of
             Inl err \<Rightarrow> Inl err
           | Inr g1 \<Rightarrow>
               (case map_of (vertices g1) v of
                  None \<Rightarrow> Inl UndefinedBehaviour
                | Some vx1 \<Rightarrow>
                    (case removeEdges (outgoingEdges vx1) g1 of
                       Inl err \<Rightarrow> Inl err
                     | Inr g2 \<Rightarrow> Inr (g2\<lparr>vertices := erase v (vertices g2)\<rparr>)))))"

text \<open>
  The graphs the operations are meant for: addresses are not shared, every edge joins
  two registered vertices, and the incidence sets of every vertex hold exactly the edges
  that leave it and that enter it.
\<close>

definition outOf :: "'p graph \<Rightarrow> vptr \<Rightarrow> eptr list" where
  "outOf g p = map fst (filter (\<lambda>ae. source (snd ae) = p) (edges g))"

definition inOf :: "'p graph \<Rightarrow> vptr \<Rightarrow> eptr list" where
  "inOf g p = map fst (filter (\<lambda>ae. destination (snd ae) = p) (edges g))"

definition valid :: "'p graph \<Rightarrow> bool" where
  "valid g =
     (distinct (map fst (vertices g)) \<and> distinct (map fst (edges g))
      \<and> (\<forall>(a, ed) \<in> set (edges g).
            source ed \<in> fst ` set (vertices g) \<and> destination ed \<in> fst ` set (vertices g))
      \<and> (\<forall>(p, vx) \<in> set (vertices g).
            distinct (incomingEdges vx) \<and> distinct (outgoingEdges vx)
            \<and> set (outgoingEdges vx) = set (outOf g p)
            \<and> set (incomingEdges vx) = set (inOf g p)))"

text \<open>
  No dangling edges: both ends of every edge are registered vertices, and the edges found
  in the incidence sets of the vertices are exactly the edges of the graph.
\<close>

definition noDangling :: "'p graph \<Rightarrow> bool" where
  "noDangling g =
     ((\<forall>(a, ed) \<in> set (edges g).
          source ed \<in> fst ` set (vertices g) \<and> destination ed \<in> fst ` set (vertices g))
      \<and> (\<Union>(p, vx) \<in> set (vertices g). set (incomingEdges vx) \<union> set (outgoingEdges vx))
          = fst ` set (edges g))"

text \<open>
  The graphs reached by calls of \<open>addNewEdge\<close> and \<open>removeVertex\<close>. The allocator never
  hands out the address of a live edge; a call of \<open>addNewEdge\<close> that throws leaves a
  graph on which the caller can go on.
\<close>

inductive reach :: "'p graph \<Rightarrow> 'p graph \<Rightarrow> bool" for g :: "'p graph" where
  start: "reach g g"
| add_edge:
    "reach g h \<Longrightarrow> a \<notin> fst ` set (edges h) \<Longrightarrow> addNewEdge a src dest prog h = Inr (e, h')
     \<Longrightarrow> reach g h'"
| add_edge_failed:
    "reach g h \<Longrightarrow> addNewEdge a src dest prog h = Inl (err, h') \<Longrightarrow> reach g h'"
| remove_vertex:
    "reach g h \<Longrightarrow> removeVertex v h = Inr h' \<Longrightarrow> reach g h'"

code_pred reach .


section \<open>Decimation of roots (classificationLearningAgent.h)\<close>

text \<open>
  \<open>ClassificationLearningAgent::decimateWorstRoots\<close> up to the finished list
  \<open>rootsToKeep\<close>. An \<open>EvaluationResult\<close> is either a plain one, with its score, or a
  \<open>ClassificationEvaluationResult\<close>, with its score per class. The scores are averages
  of F1 scores and are modelled by reals. The argument \<open>results\<close> is the multimap of the
  evaluation results in its iteration order (increasing general score), each entry with
  its root.
\<close>

datatype evaluationResult =
    EvaluationResult real
  | ClassificationEvaluationResult "real list"

text \<open>
  \<open>std::multimap::emplace\<close> puts a new entry after the entries whose key is not greater.
\<close>

fun emplace :: "real \<Rightarrow> vptr \<Rightarrow> (real \<times> vptr) list \<Rightarrow> (real \<times> vptr) list" where
  "emplace k v [] = [(k, v)]"
| "emplace k v ((k', v') # xs) =
     (if k < k' then (k, v) # (k', v') # xs else (k', v') # emplace k v xs)"

text \<open>
  The \<open>for_each\<close> that fills \<open>sortedRoot\<close> for one class. Every result is cast to
  \<open>ClassificationEvaluationResult*\<close> without a test, which is undefined for a result of
  another type; \<open>getScorePerClass().at(classIdx)\<close> is a checked read.
\<close>

fun fillSortedRoot ::
  "nat \<Rightarrow> (evaluationResult \<times> vptr) list \<Rightarrow> (real \<times> vptr) list
   \<Rightarrow> error + (real \<times> vptr) list" where
  "fillSortedRoot classIdx [] sortedRoot = Inr sortedRoot"
| "fillSortedRoot classIdx ((res, r) # results) sortedRoot =
     (case res of
        EvaluationResult _ \<Rightarrow> Inl UndefinedBehaviour
      | ClassificationEvaluationResult scorePerClass \<Rightarrow>
          (case vector_at scorePerClass classIdx of
             Inl err \<Rightarrow> Inl err
           | Inr s \<Rightarrow> fillSortedRoot classIdx results (emplace s r sortedRoot)))"

text \<open>
  The inner loop \<open>for (auto i = 0; i < nbRootsKeptPerClass; i++)\<close>. Its first argument is
  the number of iterations left and its second the entries from the reverse iterator
  onwards. The iterator advances "no matter what"; reading it at \<open>rend()\<close> is undefined.
\<close>

fun keepBest :: "nat \<Rightarrow> (real \<times> vptr) list \<Rightarrow> vptr list \<Rightarrow> error + vptr list" where
  "keepBest 0 it rootsToKeep = Inr rootsToKeep"
| "keepBest (Suc i) [] rootsToKeep = Inl UndefinedBehaviour"
| "keepBest (Suc i) ((score, r) # it) rootsToKeep =
     keepBest i it (if r \<in> set rootsToKeep then rootsToKeep else rootsToKeep @ [r])"

text \<open>The loop over the classes; the first argument lists the classes still to come.\<close>

fun keepPerClass ::
  "nat list \<Rightarrow> nat \<Rightarrow> (evaluationResult \<times> vptr) list \<Rightarrow> vptr list
   \<Rightarrow> error + vptr list" where
  "keepPerClass [] nbRootsKeptPerClass results rootsToKeep = Inr rootsToKeep"
| "keepPerClass (classIdx # rest) nbRootsKeptPerClass results rootsToKeep =
     (case fillSortedRoot classIdx results [] of
        Inl err \<Rightarrow> Inl err
      | Inr sortedRoot \<Rightarrow>
          (case keepBest nbRootsKeptPerClass (rev sortedRoot) rootsToKeep of
             Inl err \<Rightarrow> Inl err
           | Inr rootsToKeep' \<Rightarrow> keepPerClass rest nbRootsKeptPerClass results rootsToKeep'))"

text \<open>
  The loop "Insert remaining roots to keep", over the results from the reverse iterator
  onwards.
\<close>

fun keepRemaining ::
  "nat \<Rightarrow> (evaluationResult \<times> vptr) list \<Rightarrow> vptr list \<Rightarrow> vptr list" where
  "keepRemaining nbRootsToKeep [] rootsToKeep = rootsToKeep"
| "keepRemaining nbRootsToKeep ((res, r) # it) rootsToKeep =
     (if length rootsToKeep < nbRootsToKeep then
        keepRemaining nbRootsToKeep it
          (if r \<in> set rootsToKeep then rootsToKeep else rootsToKeep @ [r])
      else rootsToKeep)"

text \<open>
  From the type check at the head of \<open>decimateWorstRoots\<close> to the finished list. The
  check reads the first result only; of empty results the source says that the check
  "also throws", which \<open>typeid\<close> does through a null pointer. \<open>nbRootsToKeep\<close> is an
  argument, because the C++ gets it from a product of doubles. The division by the
  number of actions is an unsigned integer division, undefined for zero actions. The C++
  also computes \<open>nbRootsKeptGeneralScore\<close>, which it does not read afterwards.
\<close>

definition selectRootsToKeep ::
  "nat \<Rightarrow> nat \<Rightarrow> (evaluationResult \<times> vptr) list \<Rightarrow> error + vptr list" where
  "selectRootsToKeep nbActions nbRootsToKeep results =
     (case results of
        [] \<Rightarrow> Inl BadTypeid
      | (EvaluationResult _, _) # _ \<Rightarrow> Inl ResultTypeMismatch
      | (ClassificationEvaluationResult _, _) # _ \<Rightarrow>
          (if nbActions = 0 then Inl UndefinedBehaviour
           else
             (let nbRootsKeptPerClass = (nbRootsToKeep div nbActions) div 2
              in case keepPerClass [0..<nbActions] nbRootsKeptPerClass results [] of
                   Inl err \<Rightarrow> Inl err
                 | Inr rootsToKeep \<Rightarrow>
                     Inr (keepRemaining nbRootsToKeep (rev results) rootsToKeep))))"

text \<open>
  The inner loop as claim C5 describes it, for comparison: a root that is already kept
  does not use up one of the class's slots, and the scan goes on to the next-best root.
\<close>

fun keepBestRefilling :: "nat \<Rightarrow> (real \<times> vptr) list \<Rightarrow> vptr list \<Rightarrow> vptr list" where
  "keepBestRefilling 0 it rootsToKeep = rootsToKeep"
| "keepBestRefilling (Suc i) [] rootsToKeep = rootsToKeep"
| "keepBestRefilling (Suc i) ((score, r) # it) rootsToKeep =
     (if r \<in> set rootsToKeep then keepBestRefilling (Suc i) it rootsToKeep
      else keepBestRefilling i it (rootsToKeep @ [r]))"

text \<open>
  The reservation of one class in closed form. \<open>classScores c results\<close> pairs every root
  with its score for class \<open>c\<close>. \<open>byClassScore c results\<close> lists these pairs in descending
  order of that score, among equal scores the later entry of \<open>results\<close> first, which is
  the order of the reverse iterator over \<open>sortedRoot\<close>. \<open>reserve k candidates keep\<close>
  goes through the first \<open>k\<close> candidates and appends to \<open>keep\<close> each root that is not in
  it yet: a candidate that is already kept uses up its place among the \<open>k\<close>.
\<close>

definition classScores ::
  "nat \<Rightarrow> (evaluationResult \<times> vptr) list \<Rightarrow> (real \<times> vptr) list" where
  "classScores c results =
     map (\<lambda>(res, r). (case res of
                         EvaluationResult s \<Rightarrow> s
                       | ClassificationEvaluationResult scorePerClass \<Rightarrow> scorePerClass ! c, r))
         results"

definition byClassScore ::
  "nat \<Rightarrow> (evaluationResult \<times> vptr) list \<Rightarrow> (real \<times> vptr) list" where
  "byClassScore c results = rev (sort_key fst (classScores c results))"

definition reserve :: "nat \<Rightarrow> (real \<times> vptr) list \<Rightarrow> vptr list \<Rightarrow> vptr list" where
  "reserve k candidates keep =
     foldl (\<lambda>kept r. if r \<in> set kept then kept else kept @ [r]) keep
       (map snd (take k candidates))"

text \<open>The results that pass the type check and the checked reads for every class.\<close>

definition classified :: "nat \<Rightarrow> (evaluationResult \<times> vptr) list \<Rightarrow> bool" where
  "classified nbActions results =
     (\<forall>(res, r) \<in> set results.
        case res of
          EvaluationResult _ \<Rightarrow> False
        | ClassificationEvaluationResult scorePerClass \<Rightarrow> nbActions \<le> length scorePerClass)"

text \<open>
  Four roots 10..13 with their scores for two classes; root 10 is the best of both
  classes.
\<close>

definition fourRoots :: "(evaluationResult \<times> vptr) list" where
  "fourRoots =
     [(ClassificationEvaluationResult [2, 2], 13), (ClassificationEvaluationResult [5, 1], 11),
      (ClassificationEvaluationResult [1, 5], 12), (ClassificationEvaluationResult [9, 9], 10)]"

section \<open>Notions used to state the properties of the engine\<close>

text \<open>
  The bid that \<open>evaluateEdge\<close> returns for the edge at address \<open>e\<close>: the result of
  its program, with a NaN replaced by minus infinity.
\<close>

definition bidOf :: "'p graph \<Rightarrow> ('p \<Rightarrow> double) \<Rightarrow> eptr \<Rightarrow> double" where
  "bidOf g run e =
     (case map_of (edges g) e of
        None \<Rightarrow> NegInf
      | Some ed \<Rightarrow> if isnan (run (program ed)) then NegInf else run (program ed))"



text \<open>
  A team with four outgoing edges 0..3 to four actions; the program of edge \<open>i\<close> is
  \<open>i\<close>, and the bids are 5, 5, 3, 1.
\<close>

definition exampleGraph :: "nat graph" where
  "exampleGraph =
     \<lparr>vertices = [(0, \<lparr>kind = TPGTeam, incomingEdges = [], outgoingEdges = [0, 1, 2, 3]\<rparr>),
                  (1, \<lparr>kind = TPGAction, incomingEdges = [0], outgoingEdges = []\<rparr>),
                  (2, \<lparr>kind = TPGAction, incomingEdges = [1], outgoingEdges = []\<rparr>),
                  (3, \<lparr>kind = TPGAction, incomingEdges = [2], outgoingEdges = []\<rparr>),
                  (4, \<lparr>kind = TPGAction, incomingEdges = [3], outgoingEdges = []\<rparr>)],
      edges = [(0, \<lparr>source = 0, destination = 1, program = 0\<rparr>),
               (1, \<lparr>source = 0, destination = 2, program = 1\<rparr>),
               (2, \<lparr>source = 0, destination = 3, program = 2\<rparr>),
               (3, \<lparr>source = 0, destination = 4, program = 3\<rparr>)]\<rparr>"

definition exampleTeam :: vertex where
  "exampleTeam = \<lparr>kind = TPGTeam, incomingEdges = [], outgoingEdges = [0, 1, 2, 3]\<rparr>"

definition exampleBids :: "nat \<Rightarrow> double" where
  "exampleBids p = (if p = 0 then Finite 5 else if p = 1 then Finite 5
                    else if p = 2 then Finite 3 else Finite 1)"

definition freshEngine :: "(nat, unit) engine" where
  "freshEngine = \<lparr>currentProgram = None, executions = [], archive = Some []\<rparr>"

text \<open>A team with two outgoing edges, whose bids are 1 and 5.\<close>

definition pairGraph :: "nat graph" where
  "pairGraph =
     \<lparr>vertices = [(0, \<lparr>kind = TPGTeam, incomingEdges = [], outgoingEdges = [0, 1]\<rparr>),
                  (1, \<lparr>kind = TPGAction, incomingEdges = [0], outgoingEdges = []\<rparr>),
                  (2, \<lparr>kind = TPGAction, incomingEdges = [1], outgoingEdges = []\<rparr>)],
      edges = [(0, \<lparr>source = 0, destination = 1, program = 0\<rparr>),
               (1, \<lparr>source = 0, destination = 2, program = 1\<rparr>)]\<rparr>"

definition pairTeam :: vertex where
  "pairTeam = \<lparr>kind = TPGTeam, incomingEdges = [], outgoingEdges = [0, 1]\<rparr>"

definition pairBids :: "nat \<Rightarrow> double" where
  "pairBids p = (if p = 0 then Finite 1 else Finite 5)"

text \<open>A team with no outgoing edge.\<close>

definition lonelyGraph :: "nat graph" where
  "lonelyGraph = \<lparr>vertices = [(0, \<lparr>kind = TPGTeam, incomingEdges = [], outgoingEdges = []\<rparr>)],
                   edges = []\<rparr>"


section \<open>Notions used in the proofs about the graph\<close>

text \<open>
  What \<open>valid\<close> says about the incidence sets, read through the lookups \<open>map_of\<close>
  that the operations perform.
\<close>

definition wf_maps :: "'p graph \<Rightarrow> bool" where
  "wf_maps g =
     ((\<forall>a ed. map_of (edges g) a = Some ed \<longrightarrow>
          map_of (vertices g) (source ed) \<noteq> None \<and> map_of (vertices g) (destination ed) \<noteq> None)
      \<and> (\<forall>p vx. map_of (vertices g) p = Some vx \<longrightarrow>
            distinct (incomingEdges vx) \<and> distinct (outgoingEdges vx)
            \<and> set (outgoingEdges vx) = {a. \<exists>ed. map_of (edges g) a = Some ed \<and> source ed = p}
            \<and> set (incomingEdges vx) = {a. \<exists>ed. map_of (edges g) a = Some ed \<and> destination ed = p}))"

text \<open>What \<open>removeEdge\<close> does to the vertex at address \<open>p\<close>.\<close>

definition detached :: "eptr \<Rightarrow> 'p edge \<Rightarrow> vptr \<Rightarrow> vertex \<Rightarrow> vertex" where
  "detached e ed p vx =
     (if p = destination ed then removeIncomingEdge e else id)
       ((if p = source ed then removeOutgoingEdge e else id) vx)"

text \<open>What a successful \<open>addNewEdge\<close> does to the vertex at address \<open>p\<close>.\<close>

definition attached :: "eptr \<Rightarrow> vptr \<Rightarrow> vptr \<Rightarrow> vptr \<Rightarrow> vertex \<Rightarrow> vertex" where
  "attached a src dest p vx =
     (if p = dest then addIncomingEdge a else id)
       ((if p = src then (\<lambda>x. x\<lparr>outgoingEdges := set_insert a (outgoingEdges x)\<rparr>) else id) vx)"

text \<open>
  \<open>pairGraph\<close> with a third edge, at address 2, from the team to the first action; and
  \<open>pairGraph\<close> once its team is removed.
\<close>

definition extendedGraph :: "nat graph" where
  "extendedGraph =
     \<lparr>vertices = [(0, \<lparr>kind = TPGTeam, incomingEdges = [], outgoingEdges = [0, 1, 2]\<rparr>),
                  (1, \<lparr>kind = TPGAction, incomingEdges = [0, 2], outgoingEdges = []\<rparr>),
                  (2, \<lparr>kind = TPGAction, incomingEdges = [1], outgoingEdges = []\<rparr>)],
      edges = [(0, \<lparr>source = 0, destination = 1, program = 0\<rparr>),
               (1, \<lparr>source = 0, destination = 2, program = 1\<rparr>),
               (2, \<lparr>source = 0, destination = 1, program = 7\<rparr>)]\<rparr>"

definition actionsOnly :: "nat graph" where
  "actionsOnly =
     \<lparr>vertices = [(1, \<lparr>kind = TPGAction, incomingEdges = [], outgoingEdges = []\<rparr>),
                  (2, \<lparr>kind = TPGAction, incomingEdges = [], outgoingEdges = []\<rparr>)],
      edges = []\<rparr>"
section \<open>Properties of the execution engine\<close>




lemma evaluateEdge_bid:
  "map_of (edges g) e = Some ed \<Longrightarrow> fst (evaluateEdge run ds ed st) = bidOf g run e"
  by (simp add: evaluateEdge_def bidOf_def Let_def)

lemma evaluateEdge_executions:
  "executions (snd (evaluateEdge run ds ed st)) = executions st @ [program ed]"
  by (simp add: evaluateEdge_def Let_def split: option.splits)

lemma evaluateEdge_archive:
  "archive (snd (evaluateEdge run ds ed st)) =
     map_option (\<lambda>recs. recs @ [(program ed, ds, fst (evaluateEdge run ds ed st))]) (archive st)"
  by (simp add: evaluateEdge_def Let_def split: option.splits)



lemmas example_defs = exampleGraph_def exampleTeam_def exampleBids_def freshEngine_def

lemma example_eval:
  "evaluateTeam exampleGraph exampleBids () exampleTeam freshEngine =
     Inr ([1, 0, 0],
          \<lparr>currentProgram = Some 3, executions = [0, 0, 0, 1, 2, 3],
           archive = Some [(0, (), Finite 5), (0, (), Finite 5), (0, (), Finite 5),
                           (1, (), Finite 5), (2, (), Finite 3), (3, (), Finite 1)]\<rparr>)"
  by (simp add: example_defs evaluateTeam_def evaluateEdge_def rank_def Let_def)




lemma live_edge: "e \<in> fst ` set (edges g) \<Longrightarrow> \<exists>ed. map_of (edges g) e = Some ed"
  by (metis map_of_eq_None_iff not_Some_eq)

text \<open>
  Claim C4, as the code has it. For a team with one or two outgoing edges, all live,
  \<open>evaluateTeam\<close> returns exactly three edges, each of them an outgoing edge of the
  team (no read out of range); rank 3 is the first outgoing edge, the initial holder of
  every slot. With one edge all three ranks are that edge. With two edges rank 1 is the
  second edge when its bid is greater than or equal to the first's, and the first edge
  otherwise, so rank 3 need not be the best edge.
\<close>

theorem few_edges_repeat_first:
  assumes "outgoingEdges team = es" and "1 \<le> length es" and "length es < 3"
    and "set es \<subseteq> fst ` set (edges g)"
  shows "\<exists>b s t st'. evaluateTeam g run ds team st = Inr ([b, s, t], st')
           \<and> b \<in> set es \<and> s \<in> set es \<and> t \<in> set es
           \<and> t = es ! 0
           \<and> (length es = 1 \<longrightarrow> b = es ! 0 \<and> s = es ! 0)
           \<and> (length es = 2 \<longrightarrow>
                b = (if ge (bidOf g run (es ! 1)) (bidOf g run (es ! 0)) then es ! 1 else es ! 0))"
proof -
  from assms(2,3) consider e0 where "es = [e0]" | e0 e1 where "es = [e0, e1]"
    by (cases es; cases "tl es"; cases "tl (tl es)") auto
  then show ?thesis
  proof cases
    case 1
    with assms(4) obtain ed0 where "map_of (edges g) e0 = Some ed0"
      using live_edge[of e0 g] by auto
    with 1 assms(1) show ?thesis
      by (simp add: evaluateTeam_def split: prod.splits)
  next
    case 2
    with assms(4) obtain ed0 ed1 where ed: "map_of (edges g) e0 = Some ed0"
      "map_of (edges g) e1 = Some ed1"
      using live_edge[of e0 g] live_edge[of e1 g] by auto
    have b: "fst (evaluateEdge run ds ed0 st0) = bidOf g run e0"
      "fst (evaluateEdge run ds ed1 st0) = bidOf g run e1" for st0
      using evaluateEdge_bid ed by metis+
    obtain b1 st1 where e1: "evaluateEdge run ds ed0 st = (b1, st1)" by force
    obtain b2 st2 where e2: "evaluateEdge run ds ed0 st1 = (b2, st2)" by force
    obtain b3 st3 where e3: "evaluateEdge run ds ed0 st2 = (b3, st3)" by force
    obtain b4 st4 where e4: "evaluateEdge run ds ed1 st3 = (b4, st4)" by force
    have bs: "b1 = bidOf g run e0" "b2 = bidOf g run e0" "b3 = bidOf g run e0"
      "b4 = bidOf g run e1"
      using b(1)[of st] b(1)[of st1] b(1)[of st2] b(2)[of st3] e1 e2 e3 e4 by simp_all
    show ?thesis
      using 2 assms(1) ed e1 e2 e3 e4 bs
      by (simp add: evaluateTeam_def rank_def)
  qed
qed

theorem few_edges_repeat_first_witness:
  "\<exists>b s t st'. evaluateTeam pairGraph pairBids () pairTeam freshEngine = Inr ([b, s, t], st')
      \<and> t = 0 \<and> b = 1"
  using few_edges_repeat_first[where team = pairTeam and es = "[0, 1]" and g = pairGraph
      and run = pairBids and ds = "()" and st = freshEngine]
  by (auto simp: pairGraph_def pairTeam_def pairBids_def bidOf_def)

text \<open>
  Two edges with the bids 1 and 5: rank 1 is edge 1 and rank 3 is edge 0.
\<close>

theorem rank3_is_best_counterexample:
  "map_sum id fst (evaluateTeam pairGraph pairBids () pairTeam freshEngine) = Inr [1, 0, 0]"
  by (simp add: pairGraph_def pairTeam_def pairBids_def freshEngine_def
      evaluateTeam_def evaluateEdge_def rank_def Let_def)

text \<open>
  A team evaluation that returns has logged two program executions more than the team
  has outgoing edges, and as many more archive recordings when there is an archive.
\<close>

lemma others_executions:
  "others g run ds es s st = Inr (s', st') \<Longrightarrow>
     length (executions st') = length (executions st) + length es
     \<and> (\<forall>recs. archive st = Some recs \<longrightarrow>
            (\<exists>recs'. archive st' = Some recs' \<and> length recs' = length recs + length es))"
proof (induction es arbitrary: s st)
  case Nil
  then show ?case by simp
next
  case (Cons e es)
  from Cons.prems obtain ed where ed: "map_of (edges g) e = Some ed"
    by (cases "map_of (edges g) e") auto
  obtain bid st1 where ev: "evaluateEdge run ds ed st = (bid, st1)" by force
  with Cons.prems ed have rec: "others g run ds es (rank e bid s) st1 = Inr (s', st')" by simp
  have x: "executions st1 = executions st @ [program ed]"
    using evaluateEdge_executions[of run ds ed st] ev by simp
  have a: "archive st1 = map_option (\<lambda>recs. recs @ [(program ed, ds, bid)]) (archive st)"
    using evaluateEdge_archive[of run ds ed st] ev by simp
  from Cons.IH[OF rec] x a show ?case by auto
qed

lemma evaluateTeam_executions:
  assumes "evaluateTeam g run ds team st = Inr (es, st')"
  shows "length (executions st') = length (executions st) + length (outgoingEdges team) + 2
     \<and> (\<forall>recs. archive st = Some recs \<longrightarrow>
            (\<exists>recs'. archive st' = Some recs'
               \<and> length recs' = length recs + length (outgoingEdges team) + 2))"
proof -
  from assms obtain e0 rest where es: "outgoingEdges team = e0 # rest"
    by (cases "outgoingEdges team") (auto simp: evaluateTeam_def)
  from assms es obtain ed0 where ed0: "map_of (edges g) e0 = Some ed0"
    by (cases "map_of (edges g) e0") (auto simp: evaluateTeam_def)
  obtain b1 st1 where e1: "evaluateEdge run ds ed0 st = (b1, st1)" by force
  obtain b2 st2 where e2: "evaluateEdge run ds ed0 st1 = (b2, st2)" by force
  obtain b3 st3 where e3: "evaluateEdge run ds ed0 st2 = (b3, st3)" by force
  from assms es ed0 e1 e2 e3 obtain s' where
    o: "others g run ds rest \<lparr>bestEdge = e0, secondEdge = e0, thirdEdge = e0,
               bestBid = b1, secondBid = b2, thirdBid = b3\<rparr> st3 = Inr (s', st')"
    by (auto simp: evaluateTeam_def split: sum.splits)
  have x: "executions st3 = executions st @ [program ed0, program ed0, program ed0]"
    using evaluateEdge_executions[of run ds ed0 st] evaluateEdge_executions[of run ds ed0 st1]
      evaluateEdge_executions[of run ds ed0 st2] e1 e2 e3 by simp
  have a: "archive st3 = map_option (\<lambda>recs. recs @ [(program ed0, ds, b1), (program ed0, ds, b2),
                                       (program ed0, ds, b3)]) (archive st)"
    using evaluateEdge_archive[of run ds ed0 st] evaluateEdge_archive[of run ds ed0 st1]
      evaluateEdge_archive[of run ds ed0 st2] e1 e2 e3
    by (cases "archive st") simp_all
  from others_executions[OF o] x a es show ?thesis by auto
qed

text \<open>
  Claim C2 at the team with the four edges 0..3: the program of the first edge is
  executed three times, so the four edges cost six program executions and six archive
  recordings, where the claim says four of each.
\<close>

theorem first_edge_evaluated_three_times:
  "\<exists>st'. evaluateTeam exampleGraph exampleBids () exampleTeam freshEngine = Inr ([1, 0, 0], st')
      \<and> length (outgoingEdges exampleTeam) = 4
      \<and> executions st' = [0, 0, 0, 1, 2, 3]
      \<and> archive st' = Some [(0, (), Finite 5), (0, (), Finite 5), (0, (), Finite 5),
                           (1, (), Finite 5), (2, (), Finite 3), (3, (), Finite 1)]"
  by (simp add: example_eval) (simp add: exampleTeam_def)

lemma others_error: "others g run ds es s st = Inl err \<Longrightarrow> err = UndefinedBehaviour"
  by (induction es arbitrary: s st) (auto split: option.splits prod.splits)

lemma evaluateTeam_error: "evaluateTeam g run ds team st = Inl err \<Longrightarrow> err = UndefinedBehaviour"
  by (auto simp: evaluateTeam_def split: list.splits option.splits prod.splits sum.splits
      dest: others_error)

lemma evaluateTeam_three:
  "evaluateTeam g run ds team st = Inr (es, st') \<Longrightarrow> length es = 3"
  by (auto simp: evaluateTeam_def split: list.splits option.splits prod.splits sum.splits)

lemma destinationAt_error:
  "evaluateTeam g run ds team st = Inr (es, st') \<Longrightarrow> destinationAt g es i = Inl err \<Longrightarrow> i < 3
   \<Longrightarrow> err = UndefinedBehaviour"
  by (auto simp: destinationAt_def vector_at_def split: option.splits if_splits
      dest: evaluateTeam_three)

lemma browse_error:
  "browse n g run ds cur vis st = Some (Inl err) \<Longrightarrow> err = UndefinedBehaviour"
proof (induction n arbitrary: cur vis st)
  case 0
  then show ?case by simp
next
  case (Suc n)
  then show ?case
    by (auto split: option.splits if_splits sum.splits
        dest: evaluateTeam_error destinationAt_error[where i = 2, simplified]
          destinationAt_error[where i = "Suc 0", simplified]
          destinationAt_error[where i = 0, simplified])
qed

text \<open>
  Claim C3, as the code has it. \<open>evaluateTeam\<close> has no check for a team without
  outgoing edges: it reads the first element of the empty list, which is undefined
  behaviour, and so does a traversal that reaches such a team. No execution reports
  \<open>EmptyTeam\<close>.
\<close>

theorem empty_team_is_undefined:
  "(outgoingEdges team = [] \<longrightarrow> evaluateTeam g run ds team st = Inl UndefinedBehaviour)
   \<and> (map_of (vertices g) cur = Some team \<and> kind team = TPGTeam \<and> outgoingEdges team = [] \<longrightarrow>
        browse (Suc n) g run ds cur vis st = Some (Inl UndefinedBehaviour))
   \<and> executeFromRoot fuel g run ds r st \<noteq> Some (Inl EmptyTeam)"
proof (intro conjI impI)
  show "executeFromRoot fuel g run ds r st \<noteq> Some (Inl EmptyTeam)"
    using browse_error[of fuel g run ds r "[r]" st EmptyTeam]
    by (auto simp: executeFromRoot_def)
qed (simp_all add: evaluateTeam_def)

theorem empty_team_is_undefined_witness:
  "evaluateTeam lonelyGraph (\<lambda>p. Finite 0) () \<lparr>kind = TPGTeam, incomingEdges = [], outgoingEdges = []\<rparr> freshEngine
     = Inl UndefinedBehaviour
   \<and> browse (Suc 0) lonelyGraph (\<lambda>p. Finite 0) () 0 [0] freshEngine = Some (Inl UndefinedBehaviour)"
  using empty_team_is_undefined[where team = "\<lparr>kind = TPGTeam, incomingEdges = [], outgoingEdges = []\<rparr>"
      and g = lonelyGraph and cur = 0 and n = 0 and run = "\<lambda>p. Finite 0" and ds = "()"
      and st = freshEngine and vis = "[0]"]
  by (simp add: lonelyGraph_def)

text \<open>
  Executing from a root team without outgoing edges is undefined behaviour, not the
  failure \<open>EmptyTeam\<close>.
\<close>

theorem empty_team_error_counterexample:
  "executeFromRoot 1 lonelyGraph (\<lambda>p. Finite 0) () 0 freshEngine = Some (Inl UndefinedBehaviour)
   \<and> executeFromRoot 1 lonelyGraph (\<lambda>p. Finite 0) () 0 freshEngine \<noteq> Some (Inl EmptyTeam)"
  by (simp add: executeFromRoot_def lonelyGraph_def evaluateTeam_def)









section \<open>Properties of the graph\<close>

lemma map_of_updateVertex:
  "map_of (updateVertex v f vs) p = (if p = v then map_option f (map_of vs v) else map_of vs p)"
  by (induction v f vs rule: updateVertex.induct) auto

lemma map_fst_updateVertex: "map fst (updateVertex v f vs) = map fst vs"
  by (induction v f vs rule: updateVertex.induct) auto

lemma erase_filter: "distinct (map fst xs) \<Longrightarrow> erase a xs = filter (\<lambda>bx. fst bx \<noteq> a) xs"
proof (induction a xs rule: erase.induct)
  case (1 a)
  then show ?case by simp
next
  case (2 a b x xs)
  show ?case
  proof (cases "b = a")
    case True
    with 2 have "a \<notin> fst ` set xs" by simp
    then have "filter (\<lambda>bx. fst bx \<noteq> a) xs = xs"
      by (intro filter_True) force
    with True show ?thesis by simp
  next
    case False
    with 2 show ?thesis by simp
  qed
qed

lemma map_of_filter_fst:
  "map_of (filter (\<lambda>bx. fst bx \<noteq> a) xs) b = (if b = a then None else map_of xs b)"
  by (induction xs) auto

lemma set_outOf: "set (outOf g p) = {a. \<exists>ed. (a, ed) \<in> set (edges g) \<and> source ed = p}"
  by (force simp: outOf_def)

lemma set_inOf: "set (inOf g p) = {a. \<exists>ed. (a, ed) \<in> set (edges g) \<and> destination ed = p}"
  by (force simp: inOf_def)

lemma valid_iff:
  "valid g \<longleftrightarrow>
     distinct (map fst (vertices g)) \<and> distinct (map fst (edges g)) \<and> wf_maps g"
proof (cases "distinct (map fst (vertices g)) \<and> distinct (map fst (edges g))")
  case False
  then show ?thesis by (auto simp: valid_def)
next
  case True
  then have v: "\<And>p vx. (map_of (vertices g) p = Some vx) = ((p, vx) \<in> set (vertices g))"
    and e: "\<And>a ed. (map_of (edges g) a = Some ed) = ((a, ed) \<in> set (edges g))"
    by (simp_all add: map_of_eq_Some_iff)
  have d: "\<And>p. (map_of (vertices g) p \<noteq> None) = (p \<in> fst ` set (vertices g))"
    by (simp add: map_of_eq_None_iff)
  show ?thesis
    unfolding valid_def wf_maps_def set_outOf set_inOf v e d using True
    by (simp add: case_prod_unfold Ball_def)
qed

lemma removeEdge_live:
  assumes "valid g" and ed: "map_of (edges g) e = Some ed"
  shows "\<exists>g'. removeEdge e g = Inr g'
           \<and> edges g' = filter (\<lambda>bx. fst bx \<noteq> e) (edges g)
           \<and> map fst (vertices g') = map fst (vertices g)
           \<and> (\<forall>p. map_of (vertices g') p = map_option (detached e ed p) (map_of (vertices g) p))"
proof -
  from assms have wf: "wf_maps g" and de: "distinct (map fst (edges g))"
    by (simp_all add: valid_iff)
  from wf ed obtain sv dv where sv: "map_of (vertices g) (source ed) = Some sv"
    and dv: "map_of (vertices g) (destination ed) = Some dv"
    unfolding wf_maps_def by fastforce
  let ?vs1 = "updateVertex (source ed) (removeOutgoingEdge e) (vertices g)"
  let ?vs2 = "updateVertex (destination ed) (removeIncomingEdge e) ?vs1"
  have d1: "map_of ?vs1 (destination ed) \<noteq> None"
    using sv dv by (simp add: map_of_updateVertex)
  have r: "removeEdge e g = Inr \<lparr>vertices = ?vs2, edges = erase e (edges g)\<rparr>"
    using ed sv d1 by (auto simp: removeEdge_def Let_def split: option.splits)
  have m: "map_of ?vs2 p = map_option (detached e ed p) (map_of (vertices g) p)" for p
    by (cases "map_of (vertices g) p")
       (auto simp: map_of_updateVertex detached_def option.map_comp)
  show ?thesis
    using r m de by (simp add: erase_filter map_fst_updateVertex)
qed

lemma detached_fields:
  "kind (detached e ed p vx) = kind vx"
  "outgoingEdges (detached e ed p vx) =
     (if p = source ed then removeAll e (outgoingEdges vx) else outgoingEdges vx)"
  "incomingEdges (detached e ed p vx) =
     (if p = destination ed then removeAll e (incomingEdges vx) else incomingEdges vx)"
  by (simp_all add: detached_def removeIncomingEdge_def removeOutgoingEdge_def set_erase_def)

lemma removeEdge_valid:
  assumes "valid g" and ed: "map_of (edges g) e = Some ed"
    and r: "removeEdge e g = Inr g'"
  shows "valid g'"
proof -
  from removeEdge_live[OF assms(1,2)] r
  have eg: "edges g' = filter (\<lambda>bx. fst bx \<noteq> e) (edges g)"
    and vg: "map fst (vertices g') = map fst (vertices g)"
    and mg: "\<And>p. map_of (vertices g') p = map_option (detached e ed p) (map_of (vertices g) p)"
    by auto
  from assms(1) have wf: "wf_maps g" and dv: "distinct (map fst (vertices g))"
    and de: "distinct (map fst (edges g))"
    by (simp_all add: valid_iff)
  have me: "map_of (edges g') a = (if a = e then None else map_of (edges g) a)" for a
    by (simp add: eg map_of_filter_fst)
  have "distinct (map fst (edges g'))"
    using de by (simp add: eg distinct_map_filter)
  moreover have "distinct (map fst (vertices g'))" using dv vg by simp
  moreover have "wf_maps g'"
    unfolding wf_maps_def
  proof (intro conjI allI impI)
    fix a ed' assume "map_of (edges g') a = Some ed'"
    then have "map_of (edges g) a = Some ed'" by (auto simp: me split: if_splits)
    with wf show "map_of (vertices g') (source ed') \<noteq> None"
      "map_of (vertices g') (destination ed') \<noteq> None"
      unfolding wf_maps_def by (auto simp: mg)
  next
    fix p vx' assume "map_of (vertices g') p = Some vx'"
    then obtain vx where vx: "map_of (vertices g) p = Some vx" and vx': "vx' = detached e ed p vx"
      by (auto simp: mg)
    from wf vx have w: "distinct (incomingEdges vx)" "distinct (outgoingEdges vx)"
      "set (outgoingEdges vx) = {a. \<exists>ed. map_of (edges g) a = Some ed \<and> source ed = p}"
      "set (incomingEdges vx) = {a. \<exists>ed. map_of (edges g) a = Some ed \<and> destination ed = p}"
      unfolding wf_maps_def by blast+
    show "distinct (incomingEdges vx')" "distinct (outgoingEdges vx')"
      using w(1,2) by (simp_all add: vx' detached_fields distinct_removeAll)
    show "set (outgoingEdges vx') = {a. \<exists>ed. map_of (edges g') a = Some ed \<and> source ed = p}"
      using w(3) ed by (auto simp: vx' detached_fields me)
    show "set (incomingEdges vx') = {a. \<exists>ed. map_of (edges g') a = Some ed \<and> destination ed = p}"
      using w(4) ed by (auto simp: vx' detached_fields me)
  qed
  ultimately show ?thesis by (simp add: valid_iff)
qed

lemma removeEdges_valid:
  assumes "valid g" and "distinct es" and "set es \<subseteq> fst ` set (edges g)"
  shows "\<exists>g'. removeEdges es g = Inr g' \<and> valid g'
           \<and> edges g' = filter (\<lambda>bx. fst bx \<notin> set es) (edges g)
           \<and> map fst (vertices g') = map fst (vertices g)"
  using assms
proof (induction es arbitrary: g)
  case Nil
  then show ?case by simp
next
  case (Cons e es)
  from Cons.prems(3) obtain ed where ed: "map_of (edges g) e = Some ed"
    by (metis list.set_intros(1) subsetD map_of_eq_None_iff not_Some_eq)
  from removeEdge_live[OF Cons.prems(1) ed] obtain g1 where
    r: "removeEdge e g = Inr g1"
    and eg: "edges g1 = filter (\<lambda>bx. fst bx \<noteq> e) (edges g)"
    and vg: "map fst (vertices g1) = map fst (vertices g)"
    by auto
  have v1: "valid g1" by (rule removeEdge_valid[OF Cons.prems(1) ed r])
  have sub: "set es \<subseteq> fst ` set (edges g1)"
    using Cons.prems(2,3) by (force simp: eg)
  from Cons.prems(2) have "distinct es" by simp
  from Cons.IH[OF v1 this sub] obtain g' where
    "removeEdges es g1 = Inr g'" "valid g'"
    "edges g' = filter (\<lambda>bx. fst bx \<notin> set es) (edges g1)"
    "map fst (vertices g') = map fst (vertices g1)"
    by auto
  then show ?case using r eg vg
    by (auto simp: conj_commute)
qed

lemma length_filter_keys:
  assumes "distinct (map fst xs)" and "S \<subseteq> fst ` set xs"
  shows "length (filter (\<lambda>bx. fst bx \<notin> S) xs) = length xs - card S"
proof -
  have "map fst (filter (\<lambda>bx. fst bx \<in> S) xs) = filter (\<lambda>k. k \<in> S) (map fst xs)"
    by (simp add: filter_map comp_def)
  moreover have "distinct (filter (\<lambda>k. k \<in> S) (map fst xs))" using assms(1) by simp
  moreover have "set (filter (\<lambda>k. k \<in> S) (map fst xs)) = S" using assms(2) by auto
  ultimately have "card S = length (filter (\<lambda>bx. fst bx \<in> S) xs)"
    by (metis distinct_card length_map)
  moreover have "length (filter (\<lambda>bx. fst bx \<in> S) xs) + length (filter (\<lambda>bx. fst bx \<notin> S) xs)
                 = length xs"
    by (rule sum_length_filter_compl)
  ultimately show ?thesis by simp
qed

lemma removeVertex_registered:
  assumes val: "valid g" and vx: "map_of (vertices g) v = Some vx"
  shows "\<exists>g'. removeVertex v g = Inr g' \<and> valid g'
           \<and> edges g' = filter (\<lambda>bx. fst bx \<notin> set (incomingEdges vx) \<union> set (outgoingEdges vx)) (edges g)
           \<and> map fst (vertices g') = filter (\<lambda>p. p \<noteq> v) (map fst (vertices g))"
proof -
  from val have wf: "wf_maps g" and dv: "distinct (map fst (vertices g))"
    and de: "distinct (map fst (edges g))"
    by (simp_all add: valid_iff)
  have e: "\<And>a ed. (map_of (edges g) a = Some ed) = ((a, ed) \<in> set (edges g))"
    using de by (simp add: map_of_eq_Some_iff)
  from wf vx have w: "distinct (incomingEdges vx)" "distinct (outgoingEdges vx)"
    "set (outgoingEdges vx) = {a. \<exists>ed. (a, ed) \<in> set (edges g) \<and> source ed = v}"
    "set (incomingEdges vx) = {a. \<exists>ed. (a, ed) \<in> set (edges g) \<and> destination ed = v}"
    unfolding wf_maps_def e by blast+
  have "set (incomingEdges vx) \<subseteq> fst ` set (edges g)" using w(4) by force
  from removeEdges_valid[OF val w(1) this] obtain g1 where
    r1: "removeEdges (incomingEdges vx) g = Inr g1" and v1: "valid g1"
    and e1: "edges g1 = filter (\<lambda>bx. fst bx \<notin> set (incomingEdges vx)) (edges g)"
    and k1: "map fst (vertices g1) = map fst (vertices g)"
    by auto
  have "v \<in> fst ` set (vertices g1)"
    using vx k1 by (metis map_of_eq_None_iff option.distinct(1) set_map)
  then obtain vx1 where vx1: "map_of (vertices g1) v = Some vx1"
    by (metis map_of_eq_None_iff not_Some_eq)
  from v1 have wf1: "wf_maps g1" and de1: "distinct (map fst (edges g1))"
    by (simp_all add: valid_iff)
  have e1': "\<And>a ed. (map_of (edges g1) a = Some ed) = ((a, ed) \<in> set (edges g1))"
    using de1 by (simp add: map_of_eq_Some_iff)
  from wf1 vx1 have w1: "distinct (outgoingEdges vx1)"
    "set (outgoingEdges vx1) = {a. \<exists>ed. (a, ed) \<in> set (edges g1) \<and> source ed = v}"
    unfolding wf_maps_def e1' by blast+
  have "set (outgoingEdges vx1) \<subseteq> fst ` set (edges g1)" using w1(2) by force
  from removeEdges_valid[OF v1 w1(1) this] obtain g2 where
    r2: "removeEdges (outgoingEdges vx1) g1 = Inr g2" and v2: "valid g2"
    and e2: "edges g2 = filter (\<lambda>bx. fst bx \<notin> set (outgoingEdges vx1)) (edges g1)"
    and k2: "map fst (vertices g2) = map fst (vertices g1)"
    by auto
  let ?g' = "g2\<lparr>vertices := erase v (vertices g2)\<rparr>"
  have rv: "removeVertex v g = Inr ?g'"
    using vx r1 vx1 r2 by (simp add: removeVertex_def)
  have out1: "set (outgoingEdges vx1) = set (outgoingEdges vx) - set (incomingEdges vx)"
  proof -
    have "a \<in> set (outgoingEdges vx1) \<longleftrightarrow> a \<in> set (outgoingEdges vx) - set (incomingEdges vx)" for a
      unfolding w1(2) w(3) e1 by auto
    then show ?thesis by blast
  qed
  have eg: "edges ?g' = filter (\<lambda>bx. fst bx \<notin> set (incomingEdges vx) \<union> set (outgoingEdges vx)) (edges g)"
  proof -
    have "edges ?g' = filter (\<lambda>bx. fst bx \<notin> set (outgoingEdges vx1))
                        (filter (\<lambda>bx. fst bx \<notin> set (incomingEdges vx)) (edges g))"
      by (simp add: e2 e1)
    also have "\<dots> = filter (\<lambda>bx. fst bx \<notin> set (incomingEdges vx) \<and> fst bx \<notin> set (outgoingEdges vx1))
                        (edges g)"
      by simp
    also have "\<dots> = filter (\<lambda>bx. fst bx \<notin> set (incomingEdges vx) \<union> set (outgoingEdges vx)) (edges g)"
      by (rule filter_cong) (auto simp: out1)
    finally show ?thesis .
  qed
  from v2 have wf2: "wf_maps g2" and dv2: "distinct (map fst (vertices g2))"
    and de2: "distinct (map fst (edges g2))"
    by (simp_all add: valid_iff)
  have vs': "vertices ?g' = filter (\<lambda>bx. fst bx \<noteq> v) (vertices g2)"
    using dv2 by (simp add: erase_filter)
  have kg: "map fst (vertices ?g') = filter (\<lambda>p. p \<noteq> v) (map fst (vertices g))"
  proof -
    have "map fst (filter (\<lambda>bx. fst bx \<noteq> v) xs) = filter (\<lambda>p. p \<noteq> v) (map fst xs)"
      for xs :: "(vptr \<times> vertex) list"
      by (simp add: filter_map comp_def)
    then show ?thesis unfolding vs' by (simp only: k2 k1)
  qed
  have mv: "map_of (erase v (vertices g2)) p = (if p = v then None else map_of (vertices g2) p)" for p
    using dv2 by (simp add: erase_filter map_of_filter_fst)
  have free: "source ed \<noteq> v \<and> destination ed \<noteq> v" if "map_of (edges g2) a = Some ed" for a ed
  proof -
    from that have "(a, ed) \<in> set (edges g2)" by (rule map_of_SomeD)
    then have in_g: "(a, ed) \<in> set (edges g)"
      and notin: "a \<notin> set (incomingEdges vx) \<union> set (outgoingEdges vx)"
      using eg by auto
    from in_g notin show ?thesis unfolding w(3) w(4) by blast
  qed
  have "wf_maps ?g'"
    unfolding wf_maps_def
  proof (intro conjI allI impI)
    fix a ed assume a: "map_of (edges ?g') a = Some ed"
    then have "map_of (edges g2) a = Some ed" by simp
    with wf2 free[of a ed]
    show "map_of (vertices ?g') (source ed) \<noteq> None"
      "map_of (vertices ?g') (destination ed) \<noteq> None"
      unfolding wf_maps_def by (auto simp: mv)
  next
    fix p vx' assume "map_of (vertices ?g') p = Some vx'"
    then have p: "map_of (vertices g2) p = Some vx'" by (auto simp: mv split: if_splits)
    with wf2 show "distinct (incomingEdges vx')" "distinct (outgoingEdges vx')"
      "set (outgoingEdges vx') = {a. \<exists>ed. map_of (edges ?g') a = Some ed \<and> source ed = p}"
      "set (incomingEdges vx') = {a. \<exists>ed. map_of (edges ?g') a = Some ed \<and> destination ed = p}"
      unfolding wf_maps_def by simp_all
  qed
  moreover have "distinct (map fst (vertices ?g'))"
    using dv2 unfolding vs' by (simp add: distinct_map_filter)
  ultimately have "valid ?g'" using de2 by (simp add: valid_iff)
  with rv eg kg show ?thesis by blast
qed

lemma attached_fields:
  "kind (attached a src dest p vx) = kind vx"
  "outgoingEdges (attached a src dest p vx) =
     (if p = src then set_insert a (outgoingEdges vx) else outgoingEdges vx)"
  "incomingEdges (attached a src dest p vx) =
     (if p = dest then set_insert a (incomingEdges vx) else incomingEdges vx)"
  by (simp_all add: attached_def addIncomingEdge_def)

lemma set_insert_props:
  "set (set_insert a xs) = insert a (set xs)"
  "distinct xs \<Longrightarrow> distinct (set_insert a xs)"
  by (auto simp: set_insert_def set_insort_key distinct_insort)

lemma addNewEdge_invalid:
  "map_of (vertices g) src = None \<or> map_of (vertices g) dest = None
   \<Longrightarrow> addNewEdge a src dest prog g = Inl (InvalidVertex, g)"
  by (cases "map_of (vertices g) src"; cases "map_of (vertices g) dest")
     (simp_all add: addNewEdge_def)

lemma addNewEdge_action:
  "map_of (vertices g) src = Some sv \<Longrightarrow> map_of (vertices g) dest = Some dv
   \<Longrightarrow> kind sv = TPGAction
   \<Longrightarrow> addNewEdge a src dest prog g = Inl (ActionSourceError, g)"
  by (simp add: addNewEdge_def addOutgoingEdge_def Let_def)

lemma addNewEdge_team:
  "map_of (vertices g) src = Some sv \<Longrightarrow> map_of (vertices g) dest = Some dv
   \<Longrightarrow> kind sv = TPGTeam
   \<Longrightarrow> addNewEdge a src dest prog g =
         Inr (a, \<lparr>vertices = updateVertex dest (addIncomingEdge a)
                              (updateVertex src
                                 (\<lambda>_. sv\<lparr>outgoingEdges := set_insert a (outgoingEdges sv)\<rparr>)
                                 (vertices g)),
                  edges = edges g @ [(a, \<lparr>source = src, destination = dest, program = prog\<rparr>)]\<rparr>)"
  by (simp add: addNewEdge_def addOutgoingEdge_def Let_def)

lemma addNewEdge_cases:
  obtains "map_of (vertices g) src = None \<or> map_of (vertices g) dest = None"
  | sv dv where "map_of (vertices g) src = Some sv" "map_of (vertices g) dest = Some dv"
      "kind sv = TPGAction"
  | sv dv where "map_of (vertices g) src = Some sv" "map_of (vertices g) dest = Some dv"
      "kind sv = TPGTeam"
proof (cases "map_of (vertices g) src")
  case None
  then show ?thesis using that(1) by simp
next
  case (Some sv)
  show ?thesis
  proof (cases "map_of (vertices g) dest")
    case None
    then show ?thesis using that(1) by simp
  next
    case dv: (Some dv)
    show ?thesis using Some dv that(2,3) by (cases "kind sv") blast+
  qed
qed

lemma addNewEdge_success:
  assumes "addNewEdge a src dest prog g = Inr (e, g')"
  shows "e = a \<and> map_of (vertices g) src \<noteq> None \<and> map_of (vertices g) dest \<noteq> None
         \<and> edges g' = edges g @ [(a, \<lparr>source = src, destination = dest, program = prog\<rparr>)]
         \<and> map fst (vertices g') = map fst (vertices g)
         \<and> (\<forall>p. map_of (vertices g') p = map_option (attached a src dest p) (map_of (vertices g) p))"
proof (cases rule: addNewEdge_cases[of g src dest])
  case 1
  from addNewEdge_invalid[OF this, of a prog] assms show ?thesis by simp
next
  case (2 sv dv)
  from addNewEdge_action[OF this, of a prog] assms show ?thesis by simp
next
  case (3 sv dv)
  let ?sv' = "sv\<lparr>outgoingEdges := set_insert a (outgoingEdges sv)\<rparr>"
  let ?vs = "updateVertex dest (addIncomingEdge a) (updateVertex src (\<lambda>_. ?sv') (vertices g))"
  from addNewEdge_team[OF 3, of a prog] assms
  have ea: "e = a"
    and g': "g' = \<lparr>vertices = ?vs,
                  edges = edges g @ [(a, \<lparr>source = src, destination = dest, program = prog\<rparr>)]\<rparr>"
    by simp_all
  have m: "map_of ?vs p = map_option (attached a src dest p) (map_of (vertices g) p)" for p
  proof (cases "map_of (vertices g) p")
    case None
    then show ?thesis using 3 by (auto simp: map_of_updateVertex)
  next
    case (Some vx)
    then show ?thesis using 3(1)
      by (auto simp: map_of_updateVertex attached_def)
  qed
  show ?thesis using g' ea 3 m by (simp add: map_fst_updateVertex)
qed

lemma addNewEdge_failure:
  assumes "addNewEdge a src dest prog g = Inl (err, g')"
  shows "g' = g"
proof (cases rule: addNewEdge_cases[of g src dest])
  case 1
  from addNewEdge_invalid[OF this, of a prog] assms show ?thesis by simp
next
  case (2 sv dv)
  from addNewEdge_action[OF this, of a prog] assms show ?thesis by simp
next
  case (3 sv dv)
  from addNewEdge_team[OF this, of a prog] assms show ?thesis by simp
qed

lemma addNewEdge_valid:
  assumes val: "valid g" and fresh: "a \<notin> fst ` set (edges g)"
    and add: "addNewEdge a src dest prog g = Inr (e, g')"
  shows "valid g'"
proof -
  let ?new = "\<lparr>source = src, destination = dest, program = prog\<rparr>"
  from addNewEdge_success[OF add]
  have sd: "map_of (vertices g) src \<noteq> None" "map_of (vertices g) dest \<noteq> None"
    and eg: "edges g' = edges g @ [(a, ?new)]"
    and vg: "map fst (vertices g') = map fst (vertices g)"
    and mg: "\<And>p. map_of (vertices g') p = map_option (attached a src dest p) (map_of (vertices g) p)"
    by blast+
  from val have wf: "wf_maps g" and dv: "distinct (map fst (vertices g))"
    and de: "distinct (map fst (edges g))"
    by (simp_all add: valid_iff)
  from fresh have none: "map_of (edges g) a = None" by (simp add: map_of_eq_None_iff)
  have me: "map_of (edges g') b = (if b = a then Some ?new else map_of (edges g) b)" for b
  proof (cases "b = a")
    case True
    then show ?thesis using none by (simp add: eg map_add_def)
  next
    case False
    then show ?thesis by (simp add: eg map_add_def split: option.splits)
  qed
  have outs: "{b. \<exists>ed. map_of (edges g') b = Some ed \<and> source ed = p}
              = (if p = src then insert a {b. \<exists>ed. map_of (edges g) b = Some ed \<and> source ed = p}
                 else {b. \<exists>ed. map_of (edges g) b = Some ed \<and> source ed = p})" for p
  proof -
    have "(\<exists>ed. map_of (edges g') b = Some ed \<and> source ed = p)
          \<longleftrightarrow> (b = a \<and> p = src) \<or> (\<exists>ed. map_of (edges g) b = Some ed \<and> source ed = p)" for b
      using none by (cases "b = a") (auto simp: me)
    then show ?thesis by (cases "p = src") auto
  qed
  have ins: "{b. \<exists>ed. map_of (edges g') b = Some ed \<and> destination ed = p}
              = (if p = dest then insert a {b. \<exists>ed. map_of (edges g) b = Some ed \<and> destination ed = p}
                 else {b. \<exists>ed. map_of (edges g) b = Some ed \<and> destination ed = p})" for p
  proof -
    have "(\<exists>ed. map_of (edges g') b = Some ed \<and> destination ed = p)
          \<longleftrightarrow> (b = a \<and> p = dest) \<or> (\<exists>ed. map_of (edges g) b = Some ed \<and> destination ed = p)" for b
      using none by (cases "b = a") (auto simp: me)
    then show ?thesis by (cases "p = dest") auto
  qed
  have "distinct (map fst (edges g'))" using de fresh by (simp add: eg)
  moreover have "distinct (map fst (vertices g'))" using dv vg by simp
  moreover have "wf_maps g'"
    unfolding wf_maps_def
  proof (intro conjI allI impI)
    fix b ed assume "map_of (edges g') b = Some ed"
    then consider "b = a" "ed = ?new" | "map_of (edges g) b = Some ed"
      by (cases "b = a") (simp_all add: me)
    then have "map_of (vertices g) (source ed) \<noteq> None \<and> map_of (vertices g) (destination ed) \<noteq> None"
    proof cases
      case 1
      then show ?thesis using sd by simp
    next
      case 2
      then show ?thesis using wf unfolding wf_maps_def by blast
    qed
    then show "map_of (vertices g') (source ed) \<noteq> None"
      "map_of (vertices g') (destination ed) \<noteq> None"
      by (simp_all add: mg)
  next
    fix p vx' assume "map_of (vertices g') p = Some vx'"
    then obtain vx where vx: "map_of (vertices g) p = Some vx"
      and vx': "vx' = attached a src dest p vx"
      unfolding mg by (cases "map_of (vertices g) p") auto
    from wf vx have w: "distinct (incomingEdges vx)" "distinct (outgoingEdges vx)"
      "set (outgoingEdges vx) = {a. \<exists>ed. map_of (edges g) a = Some ed \<and> source ed = p}"
      "set (incomingEdges vx) = {a. \<exists>ed. map_of (edges g) a = Some ed \<and> destination ed = p}"
      unfolding wf_maps_def by blast+
    show "distinct (incomingEdges vx')" "distinct (outgoingEdges vx')"
      using w(1,2) by (simp_all add: vx' attached_fields set_insert_props)
    show "set (outgoingEdges vx') = {a. \<exists>ed. map_of (edges g') a = Some ed \<and> source ed = p}"
      unfolding outs vx' attached_fields using w(3) by (simp add: set_insert_props)
    show "set (incomingEdges vx') = {a. \<exists>ed. map_of (edges g') a = Some ed \<and> destination ed = p}"
      unfolding ins vx' attached_fields using w(4) by (simp add: set_insert_props)
  qed
  ultimately show ?thesis by (simp add: valid_iff)
qed

lemma valid_noDangling:
  assumes "valid g"
  shows "noDangling g"
proof -
  from assms have ends: "\<forall>(a, ed) \<in> set (edges g).
            source ed \<in> fst ` set (vertices g) \<and> destination ed \<in> fst ` set (vertices g)"
    and inc: "\<And>p vx. (p, vx) \<in> set (vertices g) \<Longrightarrow>
            set (outgoingEdges vx) = {a. \<exists>ed. (a, ed) \<in> set (edges g) \<and> source ed = p}
            \<and> set (incomingEdges vx) = {a. \<exists>ed. (a, ed) \<in> set (edges g) \<and> destination ed = p}"
    unfolding valid_def set_outOf set_inOf by blast+
  have "(\<Union>(p, vx) \<in> set (vertices g). set (incomingEdges vx) \<union> set (outgoingEdges vx))
          = fst ` set (edges g)" (is "?L = ?R")
  proof (intro set_eqI iffI)
    fix a assume "a \<in> ?L"
    then obtain p vx where pv: "(p, vx) \<in> set (vertices g)"
      and a: "a \<in> set (incomingEdges vx) \<union> set (outgoingEdges vx)" by auto
    from inc[OF pv] a obtain ed where "(a, ed) \<in> set (edges g)" by auto
    then show "a \<in> ?R" by force
  next
    fix a assume "a \<in> ?R"
    then obtain ed where ed: "(a, ed) \<in> set (edges g)" by auto
    with ends have "source ed \<in> fst ` set (vertices g)" by auto
    then obtain vx where pv: "(source ed, vx) \<in> set (vertices g)" by auto
    from inc[OF pv] ed have "a \<in> set (outgoingEdges vx)" by auto
    with pv show "a \<in> ?L" by blast
  qed
  with ends show ?thesis unfolding noDangling_def by simp
qed

text \<open>
  Claim C6. \<open>addNewEdge\<close> fails with \<open>InvalidVertex\<close> when the source or the
  destination is not registered in the graph, and with \<open>ActionSourceError\<close> when both
  are registered and the source is an action. Every failure is one of these two, and it
  leaves the graph as it was before the call: the same edge collection and the same
  vertices with the same incidence sets.
\<close>

theorem addNewEdge_all_or_nothing:
  "(src \<notin> fst ` set (vertices g) \<or> dest \<notin> fst ` set (vertices g) \<longrightarrow>
      addNewEdge a src dest prog g = Inl (InvalidVertex, g))
   \<and> (map_of (vertices g) src = Some sv \<and> kind sv = TPGAction \<and> dest \<in> fst ` set (vertices g) \<longrightarrow>
        addNewEdge a src dest prog g = Inl (ActionSourceError, g))
   \<and> (addNewEdge a src dest prog g = Inl (err, g') \<longrightarrow>
        g' = g \<and> edges g' = edges g \<and> vertices g' = vertices g
        \<and> (err = InvalidVertex \<or> err = ActionSourceError))"
proof (intro conjI impI)
  assume "src \<notin> fst ` set (vertices g) \<or> dest \<notin> fst ` set (vertices g)"
  then have "map_of (vertices g) src = None \<or> map_of (vertices g) dest = None"
    by (simp add: map_of_eq_None_iff)
  then show "addNewEdge a src dest prog g = Inl (InvalidVertex, g)"
    by (rule addNewEdge_invalid)
next
  assume h: "map_of (vertices g) src = Some sv \<and> kind sv = TPGAction \<and> dest \<in> fst ` set (vertices g)"
  then obtain dv where "map_of (vertices g) dest = Some dv"
    by (metis map_of_eq_None_iff not_Some_eq)
  with h show "addNewEdge a src dest prog g = Inl (ActionSourceError, g)"
    by (intro addNewEdge_action[where sv = sv and dv = dv]) simp_all
next
  assume f: "addNewEdge a src dest prog g = Inl (err, g')"
  then have "g' = g" by (rule addNewEdge_failure)
  then show "g' = g" "edges g' = edges g" "vertices g' = vertices g" by simp_all
  show "err = InvalidVertex \<or> err = ActionSourceError"
  proof (cases rule: addNewEdge_cases[of g src dest])
    case 1
    from addNewEdge_invalid[OF this, of a prog] f show ?thesis by simp
  next
    case (2 sv dv)
    from addNewEdge_action[OF this, of a prog] f show ?thesis by simp
  next
    case (3 sv dv)
    from addNewEdge_team[OF this, of a prog] f show ?thesis by simp
  qed
qed

theorem addNewEdge_all_or_nothing_witness:
  "addNewEdge 9 7 1 (0::nat) pairGraph = Inl (InvalidVertex, pairGraph)
   \<and> addNewEdge 9 1 2 (0::nat) pairGraph = Inl (ActionSourceError, pairGraph)"
proof -
  let ?act = "\<lparr>kind = TPGAction, incomingEdges = [0], outgoingEdges = []\<rparr>"
  have 1: "(7::nat) \<notin> fst ` set (vertices pairGraph) \<or> (1::nat) \<notin> fst ` set (vertices pairGraph)"
    by (simp add: pairGraph_def)
  have 2: "map_of (vertices pairGraph) 1 = Some ?act \<and> kind ?act = TPGAction
           \<and> (2::nat) \<in> fst ` set (vertices pairGraph)"
    by (simp add: pairGraph_def)
  have "addNewEdge 9 7 1 (0::nat) pairGraph = Inl (InvalidVertex, pairGraph)"
    by (rule addNewEdge_all_or_nothing[where g = pairGraph and src = 7 and dest = 1 and a = 9
          and prog = 0 and sv = ?act and err = InvalidVertex and g' = pairGraph,
          THEN conjunct1, THEN mp, OF 1])
  moreover have "addNewEdge 9 1 2 (0::nat) pairGraph = Inl (ActionSourceError, pairGraph)"
    by (rule addNewEdge_all_or_nothing[where g = pairGraph and src = 1 and dest = 2 and a = 9
          and prog = 0 and sv = ?act and err = ActionSourceError and g' = pairGraph,
          THEN conjunct2, THEN conjunct1, THEN mp, OF 2])
  ultimately show ?thesis by simp
qed

lemma removeVertex_total:
  assumes "valid g"
  shows "\<exists>g'. removeVertex v g = Inr g' \<and> valid g'"
proof (cases "map_of (vertices g) v")
  case None
  with assms show ?thesis by (simp add: removeVertex_def)
next
  case (Some vx)
  from removeVertex_registered[OF assms Some] show ?thesis by blast
qed

lemma pairGraph_valid: "valid pairGraph"
  by (simp add: valid_def pairGraph_def outOf_def inOf_def)

lemma pairGraph_add: "addNewEdge 2 0 1 7 pairGraph = Inr (2, extendedGraph)"
  by (simp add: addNewEdge_def addOutgoingEdge_def addIncomingEdge_def set_insert_def
      pairGraph_def extendedGraph_def Let_def)

lemma extendedGraph_remove: "removeVertex 0 extendedGraph = Inr actionsOnly"
  by (simp add: removeVertex_def removeEdge_def removeOutgoingEdge_def removeIncomingEdge_def
      set_erase_def extendedGraph_def actionsOnly_def Let_def)

text \<open>
  Claim C7. From a valid graph, every graph reached by calls of \<open>addNewEdge\<close>
  (successful or failed) and \<open>removeVertex\<close> is valid again and has no dangling
  edges: both ends of every edge are registered vertices, and the edges in the incidence
  sets of the vertices are exactly the edges of the graph. \<open>removeVertex\<close> returns
  normally on every such graph.
\<close>

theorem no_dangling_edges:
  assumes "valid g" and "reach g g'"
  shows "valid g' \<and> noDangling g' \<and> (\<forall>v. \<exists>h. removeVertex v g' = Inr h)"
proof -
  from assms(2) have "valid g'"
  proof (induction rule: reach.induct)
    case start
    show ?case by (rule assms(1))
  next
    case (add_edge h a src dest prog e h')
    from addNewEdge_valid[OF add_edge.IH add_edge.hyps(2,3)] show ?case .
  next
    case (add_edge_failed h a src dest prog err h')
    from addNewEdge_failure[OF add_edge_failed.hyps(2)] add_edge_failed.IH show ?case by simp
  next
    case (remove_vertex h v h')
    from removeVertex_total[OF remove_vertex.IH, of v] remove_vertex.hyps(2) show ?case by auto
  qed
  then show ?thesis
    using valid_noDangling[of g'] removeVertex_total[of g'] by blast
qed

theorem no_dangling_edges_witness:
  "valid pairGraph \<and> reach pairGraph actionsOnly
   \<and> valid actionsOnly \<and> noDangling actionsOnly
   \<and> (\<forall>v. \<exists>h. removeVertex v actionsOnly = Inr h)"
proof -
  have fresh: "(2::nat) \<notin> fst ` set (edges pairGraph)" by (simp add: pairGraph_def)
  have r: "reach pairGraph actionsOnly"
    by (rule reach.remove_vertex[OF reach.add_edge[OF reach.start fresh pairGraph_add]
          extendedGraph_remove])
  from no_dangling_edges[OF pairGraph_valid r] pairGraph_valid r show ?thesis by simp
qed

text \<open>
  Claim C8. \<open>removeVertex\<close> returns the graph unchanged when the vertex is not
  registered. On a valid graph with the vertex registered it returns normally; the edges
  left are the edges of the graph that are in neither incidence set of the vertex, which
  are \<open>N\<close> fewer for \<open>N\<close> distinct incident edges, and the vertices left are the
  other vertices, one fewer.
\<close>

theorem removeVertex_removes_incident_edges:
  "(v \<notin> fst ` set (vertices g) \<longrightarrow> removeVertex v g = Inr g)
   \<and> (valid g \<and> map_of (vertices g) v = Some vx \<longrightarrow>
        (\<exists>g'. removeVertex v g = Inr g'
           \<and> edges g' = filter (\<lambda>ae. fst ae \<notin> set (incomingEdges vx) \<union> set (outgoingEdges vx)) (edges g)
           \<and> length (edges g') + card (set (incomingEdges vx) \<union> set (outgoingEdges vx))
               = length (edges g)
           \<and> map fst (vertices g') = filter (\<lambda>p. p \<noteq> v) (map fst (vertices g))
           \<and> length (vertices g') + 1 = length (vertices g)))"
proof (intro conjI impI)
  assume "v \<notin> fst ` set (vertices g)"
  then have "map_of (vertices g) v = None" by (simp add: map_of_eq_None_iff)
  then show "removeVertex v g = Inr g" by (simp add: removeVertex_def)
next
  assume h: "valid g \<and> map_of (vertices g) v = Some vx"
  then have val: "valid g" and vx: "map_of (vertices g) v = Some vx" by simp_all
  let ?S = "set (incomingEdges vx) \<union> set (outgoingEdges vx)"
  from removeVertex_registered[OF val vx] obtain g' where
    r: "removeVertex v g = Inr g'"
    and eg: "edges g' = filter (\<lambda>bx. fst bx \<notin> ?S) (edges g)"
    and kg: "map fst (vertices g') = filter (\<lambda>p. p \<noteq> v) (map fst (vertices g))"
    by blast
  from val have dv: "distinct (map fst (vertices g))" and de: "distinct (map fst (edges g))"
    and inc: "\<forall>(p, vx) \<in> set (vertices g).
            set (outgoingEdges vx) = set (outOf g p) \<and> set (incomingEdges vx) = set (inOf g p)"
    unfolding valid_def by blast+
  have mem: "(v, vx) \<in> set (vertices g)" using vx by (rule map_of_SomeD)
  with inc have "set (outgoingEdges vx) = set (outOf g v)" "set (incomingEdges vx) = set (inOf g v)"
    by blast+
  then have sub: "?S \<subseteq> fst ` set (edges g)"
    unfolding set_outOf set_inOf by force
  have fin: "card ?S \<le> length (edges g)"
  proof -
    have "card ?S \<le> card (fst ` set (edges g))" using sub by (simp add: card_mono)
    also have "\<dots> \<le> length (edges g)"
      by (metis card_length length_map set_map)
    finally show ?thesis .
  qed
  have le: "length (edges g') + card ?S = length (edges g)"
    using length_filter_keys[OF de sub] fin by (simp add: eg)
  have "length (filter (\<lambda>bx. fst bx \<notin> {v}) (vertices g)) = length (vertices g) - card {v}"
    using mem by (intro length_filter_keys[OF dv]) force
  moreover have "length (vertices g') = length (filter (\<lambda>bx. fst bx \<notin> {v}) (vertices g))"
  proof -
    have "length (vertices g') = length (map fst (vertices g'))" by simp
    also have "\<dots> = length (map fst (filter (\<lambda>bx. fst bx \<notin> {v}) (vertices g)))"
      unfolding kg by (simp add: filter_map comp_def)
    finally show ?thesis by simp
  qed
  moreover have "0 < length (vertices g)" using mem by (cases "vertices g") auto
  ultimately have lv: "length (vertices g') + 1 = length (vertices g)" by simp
  from r eg le kg lv
  show "\<exists>g'. removeVertex v g = Inr g'
           \<and> edges g' = filter (\<lambda>ae. fst ae \<notin> ?S) (edges g)
           \<and> length (edges g') + card ?S = length (edges g)
           \<and> map fst (vertices g') = filter (\<lambda>p. p \<noteq> v) (map fst (vertices g))
           \<and> length (vertices g') + 1 = length (vertices g)"
    by blast
qed

theorem removeVertex_removes_incident_edges_witness:
  "removeVertex 7 pairGraph = Inr pairGraph
   \<and> (\<exists>g'. removeVertex 0 pairGraph = Inr g'
          \<and> length (edges g') + 2 = length (edges pairGraph)
          \<and> length (vertices g') + 1 = length (vertices pairGraph))"
proof -
  let ?team = "\<lparr>kind = TPGTeam, incomingEdges = [], outgoingEdges = [0, 1]\<rparr>"
  have 1: "(7::nat) \<notin> fst ` set (vertices pairGraph)" by (simp add: pairGraph_def)
  have 2: "valid pairGraph \<and> map_of (vertices pairGraph) 0 = Some ?team"
    using pairGraph_valid by (simp add: pairGraph_def)
  have c: "card (set (incomingEdges ?team) \<union> set (outgoingEdges ?team)) = 2" by simp
  have "removeVertex 7 pairGraph = Inr pairGraph"
    by (rule removeVertex_removes_incident_edges[where g = pairGraph and v = 7 and vx = ?team,
          THEN conjunct1, THEN mp, OF 1])
  moreover from removeVertex_removes_incident_edges[where g = pairGraph and v = 0 and vx = ?team,
          THEN conjunct2, THEN mp, OF 2]
  obtain g' where "removeVertex 0 pairGraph = Inr g'"
    "length (edges g') + card (set (incomingEdges ?team) \<union> set (outgoingEdges ?team))
       = length (edges pairGraph)"
    "length (vertices g') + 1 = length (vertices pairGraph)"
    by blast
  ultimately show ?thesis unfolding c by blast
qed

text \<open>
  Claim C9 at an edge that is not in the edge collection: \<open>removeEdge\<close> reaches
  \<open>edges.erase(edges.end())\<close>, undefined behaviour, where the claim says the call does
  nothing and does not fail. This holds on the two-edge example for the address 7 and on
  every graph without edges.
\<close>

theorem removeEdge_missing_edge:
  "removeEdge 7 pairGraph = Inl UndefinedBehaviour
   \<and> removeEdge e \<lparr>vertices = vs, edges = []\<rparr> = Inl UndefinedBehaviour"
  by (simp add: removeEdge_def pairGraph_def)

section \<open>Properties of the decimation\<close>

lemma emplace_mset: "mset (emplace k v xs) = add_mset (k, v) (mset xs)"
  by (induction k v xs rule: emplace.induct) auto

lemma emplace_set: "set (emplace k v xs) = insert (k, v) (set xs)"
  by (induction k v xs rule: emplace.induct) auto

lemma emplace_sorted: "sorted (map fst xs) \<Longrightarrow> sorted (map fst (emplace k v xs))"
  by (induction k v xs rule: emplace.induct) (auto simp: emplace_set)

lemma emplace_stable:
  "sorted (map fst xs) \<Longrightarrow>
     filter (\<lambda>x. q = fst x) (emplace k v xs)
       = filter (\<lambda>x. q = fst x) xs @ (if q = k then [(k, v)] else [])"
proof (induction k v xs rule: emplace.induct)
  case (1 k v)
  then show ?case by simp
next
  case (2 k v k' v' xs)
  show ?case
  proof (cases "k < k'")
    case True
    have "filter (\<lambda>x. k = fst x) ((k', v') # xs) = []"
      using True "2.prems" by (auto simp: filter_empty_conv)
    with True show ?thesis by auto
  next
    case False
    from "2.prems" have "sorted (map fst xs)" by simp
    from "2.IH"[OF False this] False show ?thesis by (cases "q = k") auto
  qed
qed

text \<open>
  The multimap after a list of entries has been emplaced one by one is the stable sort
  of the list by key.
\<close>

lemma emplaced_all:
  "sorted (map fst (foldl (\<lambda>acc (s, r). emplace s r acc) [] xs))
   \<and> mset (foldl (\<lambda>acc (s, r). emplace s r acc) [] xs) = mset xs
   \<and> (\<forall>q. filter (\<lambda>x. q = fst x) (foldl (\<lambda>acc (s, r). emplace s r acc) [] xs)
            = filter (\<lambda>x. q = fst x) xs)"
proof (induction xs rule: rev_induct)
  case Nil
  then show ?case by simp
next
  case (snoc x xs)
  obtain s r where x: "x = (s, r)" by (cases x)
  let ?m = "foldl (\<lambda>acc (s, r). emplace s r acc) [] xs"
  from snoc have srt: "sorted (map fst ?m)" and ms: "mset ?m = mset xs"
    and st: "\<And>q. filter (\<lambda>x. q = fst x) ?m = filter (\<lambda>x. q = fst x) xs"
    by simp_all
  have "filter (\<lambda>y. q = fst y) (emplace s r ?m) = filter (\<lambda>y. q = fst y) (xs @ [x])" for q
    using emplace_stable[OF srt, of q s r] st[of q] x by auto
  then show ?case
    using emplace_sorted[OF srt, of s r] ms x by (simp add: emplace_mset)
qed

lemma emplaced_sort_key:
  "foldl (\<lambda>acc (s, r). emplace s r acc) [] xs = sort_key fst xs"
proof (rule sym, rule properties_for_sort_key)
  show "mset (foldl (\<lambda>acc (s, r). emplace s r acc) [] xs) = mset xs"
    using emplaced_all[of xs] by simp
  show "sorted (map fst (foldl (\<lambda>acc (s, r). emplace s r acc) [] xs))"
    using emplaced_all[of xs] by simp
  show "\<And>k. k \<in> set (foldl (\<lambda>acc (s, r). emplace s r acc) [] xs) \<Longrightarrow>
          filter (\<lambda>x. fst k = fst x) (foldl (\<lambda>acc (s, r). emplace s r acc) [] xs)
            = filter (\<lambda>x. fst k = fst x) xs"
    using emplaced_all[of xs] by simp
qed

lemma fillSortedRoot_emplaced:
  "classified nbActions results \<Longrightarrow> c < nbActions \<Longrightarrow>
     fillSortedRoot c results acc
       = Inr (foldl (\<lambda>acc (s, r). emplace s r acc) acc (classScores c results))"
proof (induction c results acc rule: fillSortedRoot.induct)
  case (1 classIdx sortedRoot)
  then show ?case by (simp add: classScores_def)
next
  case (2 classIdx res r results acc)
  from "2.prems"(1) obtain scores where res: "res = ClassificationEvaluationResult scores"
    and len: "nbActions \<le> length scores" and rest: "classified nbActions results"
    by (cases res) (auto simp: classified_def)
  from len "2.prems"(2) have at: "vector_at scores classIdx = Inr (scores ! classIdx)"
    by (simp add: vector_at_def)
  from "2.IH"[OF res at rest "2.prems"(2)] res at show ?case
    by (simp add: classScores_def)
qed

lemma fillSortedRoot_sorted:
  assumes "classified nbActions results" and "c < nbActions"
  shows "fillSortedRoot c results [] = Inr (sort_key fst (classScores c results))"
  using fillSortedRoot_emplaced[OF assms, of "[]"] by (simp add: emplaced_sort_key)

lemma keepBest_reserve:
  "k \<le> length it \<Longrightarrow> keepBest k it keep = Inr (reserve k it keep)"
proof (induction k it keep rule: keepBest.induct)
  case (1 it rootsToKeep)
  then show ?case by (simp add: reserve_def)
next
  case (2 i rootsToKeep)
  then show ?case by simp
next
  case (3 i score r it keep)
  then show ?case by (simp add: reserve_def)
qed

lemma reserve_new:
  "\<exists>new. reserve k it keep = keep @ new
       \<and> set new = snd ` set (take k it) - set keep
       \<and> distinct new \<and> length new \<le> k"
proof (induction k arbitrary: it keep)
  case 0
  then show ?case by (simp add: reserve_def)
next
  case (Suc k)
  show ?case
  proof (cases it)
    case Nil
    then show ?thesis by (simp add: reserve_def)
  next
    case (Cons x it')
    let ?keep = "if snd x \<in> set keep then keep else keep @ [snd x]"
    have step: "reserve (Suc k) it keep = reserve k it' ?keep"
      using Cons by (simp add: reserve_def)
    from Suc[of it' ?keep] obtain new where
      n: "reserve k it' ?keep = ?keep @ new"
      "set new = snd ` set (take k it') - set ?keep" "distinct new" "length new \<le> k"
      by blast
    show ?thesis
    proof (cases "snd x \<in> set keep")
      case True
      with n step Cons show ?thesis by (intro exI[of _ new]) auto
    next
      case False
      with n step Cons show ?thesis by (intro exI[of _ "snd x # new"]) auto
    qed
  qed
qed

lemma keepPerClass_step:
  assumes "classified nbActions results" and "c < nbActions" and "k \<le> length results"
  shows "keepPerClass (c # rest) k results keep
           = keepPerClass rest k results (reserve k (byClassScore c results) keep)"
proof -
  have "k \<le> length (rev (sort_key fst (classScores c results)))"
    using assms(3) by (simp add: classScores_def)
  from keepBest_reserve[OF this, of keep] fillSortedRoot_sorted[OF assms(1,2)]
  show ?thesis by (simp add: byClassScore_def)
qed

lemma keepPerClass_fold:
  assumes "classified nbActions results" and "k \<le> length results"
  shows "\<forall>c \<in> set cs. c < nbActions \<Longrightarrow>
     keepPerClass cs k results keep
       = Inr (foldl (\<lambda>kept c. reserve k (byClassScore c results) kept) keep cs)"
proof (induction cs arbitrary: keep)
  case Nil
  then show ?case by simp
next
  case (Cons c cs)
  then have "c < nbActions" by simp
  from keepPerClass_step[OF assms(1) this assms(2), of cs keep] Cons show ?case by simp
qed

lemma reserved_length:
  "length (foldl (\<lambda>kept c. reserve k (byClassScore c results) kept) keep cs)
     \<le> length keep + length cs * k"
proof (induction cs arbitrary: keep)
  case Nil
  then show ?case by simp
next
  case (Cons c cs)
  from reserve_new[of k "byClassScore c results" keep] obtain new where
    "reserve k (byClassScore c results) keep = keep @ new" "length new \<le> k" by blast
  with Cons[of "keep @ new"] show ?case by simp
qed

text \<open>
  Claim C5, as the code has it. Let the results pass the type check and the reads of the
  scores, let \<open>k\<close> be \<open>nbRootsToKeep\<close> divided by the number of classes and then by
  two, rounded down each time, and let at least \<open>k\<close> roots be evaluated. The
  reservation of a class \<open>c\<close> goes through exactly the \<open>k\<close> best roots of that class,
  in descending order of their score for the class, and appends the ones that are not
  kept yet, each once. A root that is already kept uses up its slot, and the slot is not
  given to the next-best root, so the class reserves at most \<open>k\<close> roots and none beyond
  its \<open>k\<close> best. The loop over the classes is the succession of these reservations for
  the classes from 0 on; it reserves at most \<open>k\<close> roots for each class, and
  \<open>selectRootsToKeep\<close> goes on from its list with the roots by general score.
\<close>

theorem class_slot_not_refilled:
  assumes "0 < nbActions" and "results \<noteq> []" and "classified nbActions results"
    and "k = (nbRootsToKeep div nbActions) div 2" and "k \<le> length results"
  shows "(\<forall>c<nbActions.
            keepPerClass (c # rest) k results keep
              = keepPerClass rest k results (reserve k (byClassScore c results) keep))
       \<and> (\<exists>new. reserve k (byClassScore c results) keep = keep @ new
              \<and> set new = snd ` set (take k (byClassScore c results)) - set keep
              \<and> distinct new \<and> length new \<le> k)
       \<and> sorted (rev (map fst (byClassScore c results)))
       \<and> mset (byClassScore c results) = mset (classScores c results)
       \<and> (\<exists>kept. keepPerClass [0..<nbActions] k results [] = Inr kept
              \<and> kept = foldl (\<lambda>kept c. reserve k (byClassScore c results) kept) [] [0..<nbActions]
              \<and> length kept \<le> nbActions * k
              \<and> selectRootsToKeep nbActions nbRootsToKeep results
                    = Inr (keepRemaining nbRootsToKeep (rev results) kept))"
proof (intro conjI)
  show "\<forall>c<nbActions.
            keepPerClass (c # rest) k results keep
              = keepPerClass rest k results (reserve k (byClassScore c results) keep)"
    using keepPerClass_step[OF assms(3) _ assms(5)] by blast
  show "\<exists>new. reserve k (byClassScore c results) keep = keep @ new
              \<and> set new = snd ` set (take k (byClassScore c results)) - set keep
              \<and> distinct new \<and> length new \<le> k"
    by (rule reserve_new)
  show "sorted (rev (map fst (byClassScore c results)))"
    by (simp add: byClassScore_def rev_map)
  show "mset (byClassScore c results) = mset (classScores c results)"
    by (simp add: byClassScore_def)
  let ?kept = "foldl (\<lambda>kept c. reserve k (byClassScore c results) kept) [] [0..<nbActions]"
  have per: "keepPerClass [0..<nbActions] k results [] = Inr ?kept"
    by (rule keepPerClass_fold[OF assms(3,5)]) simp
  have len: "length ?kept \<le> nbActions * k"
    using reserved_length[of k results "[]" "[0..<nbActions]"] by simp
  from assms(2) obtain res r rs where rs: "results = (res, r) # rs"
    by (cases results) auto
  with assms(3) obtain scores where "res = ClassificationEvaluationResult scores"
    by (cases res) (auto simp: classified_def)
  with rs assms(1,4) per
  have "selectRootsToKeep nbActions nbRootsToKeep results
          = Inr (keepRemaining nbRootsToKeep (rev results) ?kept)"
    by (simp add: selectRootsToKeep_def)
  with per len show "\<exists>kept. keepPerClass [0..<nbActions] k results [] = Inr kept
              \<and> kept = foldl (\<lambda>kept c. reserve k (byClassScore c results) kept) [] [0..<nbActions]
              \<and> length kept \<le> nbActions * k
              \<and> selectRootsToKeep nbActions nbRootsToKeep results
                    = Inr (keepRemaining nbRootsToKeep (rev results) kept)"
    by blast
qed

lemma fourRoots_class1:
  "fillSortedRoot (Suc 0) fourRoots [] = Inr [(1, 11), (2, 13), (5, 12), (9, 10)]"
  by (simp add: fourRoots_def vector_at_def)

lemma fourRoots_class0:
  "fillSortedRoot 0 fourRoots [] = Inr [(1, 12), (2, 13), (5, 11), (9, 10)]"
  by (simp add: fourRoots_def vector_at_def)

lemma fourRoots_classified: "classified 2 fourRoots"
  by (simp add: classified_def fourRoots_def)

lemma fourRoots_byClassScore:
  "byClassScore 0 fourRoots = [(9, 10), (5, 11), (2, 13), (1, 12)]"
  "byClassScore (Suc 0) fourRoots = [(9, 10), (5, 12), (2, 13), (1, 11)]"
  using fillSortedRoot_sorted[OF fourRoots_classified, of 0]
    fillSortedRoot_sorted[OF fourRoots_classified, of "Suc 0"]
  by (simp_all add: byClassScore_def fourRoots_class0 fourRoots_class1)

lemma fourRoots_kept: "keepPerClass [0..<2] 1 fourRoots [] = Inr [10]"
proof -
  have "[0..<2] = [0, Suc 0]" by (simp add: upt_rec)
  then show ?thesis by (simp add: fourRoots_class0 fourRoots_class1)
qed

theorem class_slot_not_refilled_witness:
  "keepPerClass [1] 1 fourRoots [10] = keepPerClass [] 1 fourRoots (reserve 1 (byClassScore 1 fourRoots) [10])
   \<and> reserve 1 (byClassScore 1 fourRoots) [10] = [10]
   \<and> keepPerClass [0..<2] 1 fourRoots [] = Inr [10]
   \<and> selectRootsToKeep 2 4 fourRoots = Inr (keepRemaining 4 (rev fourRoots) [10])"
proof -
  have h: "(0::nat) < 2" "fourRoots \<noteq> []" "(1::nat) = (4 div 2) div 2" "(1::nat) \<le> length fourRoots"
    by (simp_all add: fourRoots_def)
  note t = class_slot_not_refilled[OF h(1,2) fourRoots_classified h(3,4),
      where rest = "[]" and keep = "[10]" and c = 1]
  from t have a: "keepPerClass [1] 1 fourRoots [10]
      = keepPerClass [] 1 fourRoots (reserve 1 (byClassScore 1 fourRoots) [10])"
    by simp
  have b: "reserve 1 (byClassScore 1 fourRoots) [10] = [10]"
    by (simp add: fourRoots_byClassScore reserve_def)
  from t obtain kept where k: "keepPerClass [0..<2] 1 fourRoots [] = Inr kept"
    "selectRootsToKeep 2 4 fourRoots = Inr (keepRemaining 4 (rev fourRoots) kept)"
    by blast
  from k(1) fourRoots_kept have "kept = [10]" by simp
  with a b k show ?thesis by simp
qed

text \<open>
  Two classes, four roots to keep, hence one slot per class, and root 10 the best of both
  classes: class 0 reserves root 10, class 1 reserves nothing, and the per-class
  reservation ends with root 10 alone. Refilling the slot of class 1 would have reserved
  root 12 as well.
\<close>

theorem class_slot_refilled_counterexample:
  "keepPerClass [0..<2] ((4 div 2) div 2) fourRoots [] = Inr [10]
   \<and> byClassScore 1 fourRoots = [(9, 10), (5, 12), (2, 13), (1, 11)]
   \<and> keepBest 1 (byClassScore 1 fourRoots) [10] = Inr [10]
   \<and> keepBestRefilling 1 (byClassScore 1 fourRoots) [10] = [10, 12]"
  using fourRoots_kept by (simp add: fourRoots_byClassScore)

text \<open>The outcomes of the check at the head of \<open>decimateWorstRoots\<close>.\<close>

lemma selectRootsToKeep_rejects:
  "selectRootsToKeep nbActions nbRootsToKeep [] = Inl BadTypeid"
  "selectRootsToKeep nbActions nbRootsToKeep ((EvaluationResult s, r) # rs) = Inl ResultTypeMismatch"
  by (simp_all add: selectRootsToKeep_def)

end
